theory Spec2Isabelle
  imports Complex_Main "HOL-Library.Word" "HOL-Library.Monad_Syntax"
begin

section \<open>The directional gradient kernel of DocShot\<close>

text \<open>
  A shallow embedding of \<^verbatim>\<open>directional_gradient_accumulate\<close>
  (\<^verbatim>\<open>app/src/main/cpp/directional_gradient.cpp\<close>). Buffers are lists, the 8-bit samples
  and the 32-bit accumulators are words, and every array access of the source is a checked
  access here: an access outside its buffer is undefined behaviour in C++ and is the value
  \<open>None\<close> in the model. Indices and sizes are C \<^verbatim>\<open>int\<close>s whose overflow is undefined; they
  are unbounded integers here, and the preconditions keep them in range.
\<close>

subsection \<open>Buffers and checked array accesses\<close>

type_synonym u8 = "8 word"
type_synonym i32 = "32 word"

text \<open>The five buffers the caller passes by pointer.\<close>

record buffers =
  gy_data :: "u8 list"
  gx_data :: "u8 list"
  result_data :: "u8 list"
  h_offsets :: "i32 list"
  v_offsets :: "i32 list"

definition load :: "'a list \<Rightarrow> int \<Rightarrow> 'a option" where
  "load xs i = (if 0 \<le> i \<and> i < int (length xs) then Some (xs ! nat i) else None)"

definition store :: "'a list \<Rightarrow> int \<Rightarrow> 'a \<Rightarrow> 'a list option" where
  "store xs i v = (if 0 \<le> i \<and> i < int (length xs) then Some (xs[nat i := v]) else None)"

text \<open>A \<^verbatim>\<open>for\<close> loop over a list of index values whose body may fail.\<close>

fun for_each :: "('a \<Rightarrow> 's \<Rightarrow> 's option) \<Rightarrow> 'a list \<Rightarrow> 's \<Rightarrow> 's option" where
  "for_each body [] s = Some s"
| "for_each body (x # xs) s = (case body x s of None \<Rightarrow> None | Some s' \<Rightarrow> for_each body xs s')"

subsection \<open>Step 4: accumulation over the tilt angles (source lines 33 to 53)\<close>

text \<open>
  The loop over \<open>k\<close>: \<^verbatim>\<open>sum_h += static_cast<uint32_t>(gy_data[base_idx + h_off[k]])\<close>, the
  same for \<open>sum_v\<close>. The sums are \<^verbatim>\<open>int32_t\<close>; adding a \<^verbatim>\<open>uint32_t\<close> wraps modulo
  \<open>2 ^ 32\<close>. \<open>off\<close> is \<open>a * kernel_length\<close>, the start of the angle's row in the tables.
\<close>

fun kernel_taps :: "buffers \<Rightarrow> int \<Rightarrow> int \<Rightarrow> int list \<Rightarrow> i32 \<times> i32 \<Rightarrow> (i32 \<times> i32) option" where
  "kernel_taps b off base_idx [] s = Some s"
| "kernel_taps b off base_idx (k # ks) s =
     do {
       ho \<leftarrow> load (h_offsets b) (off + k);
       gy \<leftarrow> load (gy_data b) (base_idx + sint ho);
       vo \<leftarrow> load (v_offsets b) (off + k);
       gx \<leftarrow> load (gx_data b) (base_idx + sint vo);
       kernel_taps b off base_idx ks (fst s + ucast gy, snd s + ucast gx)
     }"

text \<open>
  \<^verbatim>\<open>if (sum > response[base_idx]) response[base_idx] = sum;\<close> with the signed comparison of
  \<^verbatim>\<open>int32_t\<close>.
\<close>

definition keep_max :: "i32 list \<Rightarrow> int \<Rightarrow> i32 \<Rightarrow> i32 list option" where
  "keep_max response base_idx s =
     do {
       old \<leftarrow> load response base_idx;
       if sint old < sint s then store response base_idx s else Some response
     }"

text \<open>The body of the loop over \<open>x\<close>, for angle \<open>a\<close> and the pixel at \<open>base_idx\<close>.\<close>

definition accumulate_pixel ::
  "buffers \<Rightarrow> int \<Rightarrow> int \<Rightarrow> int \<Rightarrow> i32 list \<times> i32 list \<Rightarrow> (i32 list \<times> i32 list) option" where
  "accumulate_pixel b kernel_length a base_idx resp =
     do {
       tap_sums \<leftarrow> kernel_taps b (a * kernel_length) base_idx [0 .. kernel_length - 1] (0, 0);
       h_response \<leftarrow> keep_max (fst resp) base_idx (fst tap_sums);
       v_response \<leftarrow> keep_max (snd resp) base_idx (snd tap_sums);
       Some (h_response, v_response)
     }"

text \<open>The loops over \<open>y\<close> and \<open>x\<close> for one angle.\<close>

definition accumulate_angle ::
  "buffers \<Rightarrow> int \<Rightarrow> int \<Rightarrow> int \<Rightarrow> int \<Rightarrow> int \<Rightarrow> int \<Rightarrow> i32 list \<times> i32 list
     \<Rightarrow> (i32 list \<times> i32 list) option" where
  "accumulate_angle b rows cols kernel_length margin_y margin_x a =
     for_each (\<lambda>y. for_each (\<lambda>x. accumulate_pixel b kernel_length a (y * cols + x))
                         [margin_x .. cols - margin_x - 1])
              [margin_y .. rows - margin_y - 1]"

text \<open>
  The loop over the angles, for any list of angle indices; the source runs it on
  \<open>0, 1, \<dots>, num_angles - 1\<close>, starting from the two zeroed buffers that \<^verbatim>\<open>calloc\<close>
  returned.
\<close>

definition accumulate_angles ::
  "buffers \<Rightarrow> int \<Rightarrow> int \<Rightarrow> int \<Rightarrow> int \<Rightarrow> int \<Rightarrow> int list \<Rightarrow> i32 list \<times> i32 list
     \<Rightarrow> (i32 list \<times> i32 list) option" where
  "accumulate_angles b rows cols kernel_length margin_y margin_x angles =
     for_each (accumulate_angle b rows cols kernel_length margin_y margin_x) angles"

definition accumulation_stage ::
  "buffers \<Rightarrow> int \<Rightarrow> int \<Rightarrow> int \<Rightarrow> int \<Rightarrow> int \<Rightarrow> int \<Rightarrow> (i32 list \<times> i32 list) option" where
  "accumulation_stage b rows cols num_angles kernel_length margin_y margin_x =
     accumulate_angles b rows cols kernel_length margin_y margin_x [0 .. num_angles - 1]
       (replicate (nat (rows * cols)) 0, replicate (nat (rows * cols)) 0)"

subsection \<open>Step 5: combining the channels and normalising (source lines 56 to 75)\<close>

text \<open>
  The first pass over the pixels: \<open>combined\<close> is the signed maximum of the two responses,
  written back to \<open>h_response\<close>, and \<open>global_max\<close> starts at 1.
\<close>

fun combine_pass :: "i32 list \<Rightarrow> i32 list \<Rightarrow> i32 \<Rightarrow> i32 list \<times> i32" where
  "combine_pass (h # hs) (v # vs) global_max =
     (let combined = (if sint v < sint h then h else v);
          rest = combine_pass hs vs (if sint global_max < sint combined then combined else global_max)
      in (combined # fst rest, snd rest))"
| "combine_pass hs vs global_max = ([], global_max)"

text \<open>
  C++ integer division truncates towards zero; a zero divisor is undefined behaviour.
\<close>

definition cdiv :: "int \<Rightarrow> int \<Rightarrow> int option" where
  "cdiv a b = (if b = 0 then None else Some (sgn a * sgn b * (\<bar>a\<bar> div \<bar>b\<bar>)))"

text \<open>
  \<^verbatim>\<open>static_cast<int>(static_cast<int64_t>(h_response[i]) * 255 / global_max)\<close>: the quotient
  is computed in 64 bits, where the product cannot overflow, and narrowed to 32 bits.
\<close>

definition scaled :: "i32 \<Rightarrow> i32 \<Rightarrow> int option" where
  "scaled combined global_max =
     map_option (signed_take_bit 31) (cdiv (sint combined * 255) (sint global_max))"

text \<open>The two clamps of lines 71 and 72.\<close>

definition clamp :: "int \<Rightarrow> int" where
  "clamp n = (let n1 = (if n < 0 then 0 else n) in if 255 < n1 then 255 else n1)"

text \<open>
  The second pass: the normalised byte of every pixel and the histogram. The counts of the
  histogram are C \<^verbatim>\<open>int\<close>s bounded by the number of pixels, so they are \<open>int\<close> here.
\<close>

fun normalize_pass :: "i32 list \<Rightarrow> i32 \<Rightarrow> int list \<Rightarrow> (u8 list \<times> int list) option" where
  "normalize_pass [] global_max histogram = Some ([], histogram)"
| "normalize_pass (c # cs) global_max histogram =
     do {
       n \<leftarrow> scaled c global_max;
       cnt \<leftarrow> load histogram (clamp n);
       histogram' \<leftarrow> store histogram (clamp n) (cnt + 1);
       rest \<leftarrow> normalize_pass cs global_max histogram';
       Some (word_of_int (clamp n) # fst rest, snd rest)
     }"

definition combine_normalize :: "i32 list \<times> i32 list \<Rightarrow> (u8 list \<times> int list) option" where
  "combine_normalize resp =
     (let cg = combine_pass (fst resp) (snd resp) 1
      in normalize_pass (fst cg) (snd cg) (replicate 256 0))"

subsection \<open>Step 6: the target count in single precision (source line 81)\<close>

text \<open>
  \<^verbatim>\<open>static_cast<int>(total_pixels * threshold_percentile)\<close> converts \<open>total_pixels\<close> to
  \<^verbatim>\<open>float\<close>, multiplies in \<^verbatim>\<open>float\<close> (IEEE 754 binary32, evaluated in that precision, as on
  the 64-bit ARM and x86 targets of the app) and truncates towards zero. A finite binary32 value is
  \<open>mantissa * 2 ^ exponent\<close> with \<open>\<bar>mantissa\<bar> < 2 ^ 24\<close>; conversion and product round the
  exact result to 24 significant bits, to nearest and ties to even. The exponent range is
  not modelled: the result is only truncated to \<^verbatim>\<open>int\<close>, a product below the normal range
  truncates to 0 with or without gradual underflow, and one above it is beyond \<^verbatim>\<open>int\<close>, where
  the conversion is undefined (\<open>None\<close>), as it is for an infinity or a NaN, which
  the type leaves out.
\<close>

datatype f32 = Float32 (mantissa: int) (exponent: int)

definition f32_val :: "f32 \<Rightarrow> rat" where
  "f32_val f = (if 0 \<le> exponent f then of_int (mantissa f) * 2 ^ nat (exponent f)
                else of_int (mantissa f) / 2 ^ nat (- exponent f))"

text \<open>The number of low bits a magnitude has beyond 24.\<close>

function excess_bits :: "int \<Rightarrow> nat" where
  "excess_bits n = (if n < 2 ^ 24 then 0 else Suc (excess_bits (n div 2)))"
  by pat_completeness auto
termination
  by (relation "measure nat") auto

declare excess_bits.simps [simp del]

definition round24 :: "int \<Rightarrow> int \<Rightarrow> f32" where
  "round24 m e =
     (let d = excess_bits \<bar>m\<bar>; q = \<bar>m\<bar> div 2 ^ d; r = \<bar>m\<bar> mod 2 ^ d;
          q' = (if 2 ^ d < 2 * r \<or> (2 * r = 2 ^ d \<and> odd q) then q + 1 else q)
      in Float32 (sgn m * q') (e + int d))"

definition f32_of_int :: "int \<Rightarrow> f32" where
  "f32_of_int n = round24 n 0"

definition f32_mul :: "f32 \<Rightarrow> f32 \<Rightarrow> f32" where
  "f32_mul x y = round24 (mantissa x * mantissa y) (exponent x + exponent y)"

definition int_of_f32 :: "f32 \<Rightarrow> int option" where
  "int_of_f32 f =
     (let m = mantissa f; e = exponent f;
          t = (if 0 \<le> e then m * 2 ^ nat e else sgn m * (\<bar>m\<bar> div 2 ^ nat (- e)))
      in if - (2 ^ 31) \<le> t \<and> t < 2 ^ 31 then Some t else None)"

definition compute_target :: "int \<Rightarrow> f32 \<Rightarrow> int option" where
  "compute_target total_pixels threshold_percentile =
     int_of_f32 (f32_mul (f32_of_int total_pixels) threshold_percentile)"

subsection \<open>Step 6: threshold selection and binarisation (source lines 82 to 95)\<close>

text \<open>
  The walk over the bins from bin \<open>i\<close> on, with the running sum \<open>cum_sum\<close>: \<open>Some i\<close> is
  the \<^verbatim>\<open>break\<close> at bin \<open>i\<close>, \<open>None\<close> is the loop running to its end.
\<close>

fun threshold_walk :: "int list \<Rightarrow> int \<Rightarrow> int \<Rightarrow> int \<Rightarrow> int option" where
  "threshold_walk [] i cum_sum target = None"
| "threshold_walk (h # hs) i cum_sum target =
     (if target \<le> cum_sum + h then Some i else threshold_walk hs (i + 1) (cum_sum + h) target)"

text \<open>\<open>threshold_val\<close> is initialised to 255 and overwritten at the \<^verbatim>\<open>break\<close>.\<close>

definition select_threshold :: "int list \<Rightarrow> int \<Rightarrow> int" where
  "select_threshold histogram target =
     (case threshold_walk histogram 0 0 target of None \<Rightarrow> 255 | Some i \<Rightarrow> i)"

definition binarize :: "u8 list \<Rightarrow> int \<Rightarrow> u8 list" where
  "binarize normalized threshold_val = map (\<lambda>p. if threshold_val < uint p then 255 else 0) normalized"

subsection \<open>The whole function\<close>

text \<open>
  \<open>h_alloc\<close> and \<open>v_alloc\<close> say whether the two calls of \<^verbatim>\<open>calloc\<close> returned a buffer.
  \<open>rows * cols\<close> is a C \<^verbatim>\<open>int\<close>: outside its range the product is undefined, and so is the
  call when the result buffer has fewer than \<open>rows * cols\<close> bytes, since both paths write
  all of them. Bytes of the result buffer beyond \<open>rows * cols\<close> are never written. The
  function returns nothing; the value here is the state of the buffers on return.
\<close>

definition directional_gradient_accumulate ::
  "bool \<Rightarrow> bool \<Rightarrow> buffers \<Rightarrow> int \<Rightarrow> int \<Rightarrow> int \<Rightarrow> int \<Rightarrow> int \<Rightarrow> int \<Rightarrow> f32 \<Rightarrow> buffers option" where
  "directional_gradient_accumulate h_alloc v_alloc b rows cols num_angles kernel_length
       margin_y margin_x threshold_percentile =
     (let total_pixels = rows * cols in
      if total_pixels < 0 \<or> 2 ^ 31 \<le> total_pixels \<or> int (length (result_data b)) < total_pixels
      then None
      else if \<not> (h_alloc \<and> v_alloc)
      then Some (b\<lparr>result_data :=
                      replicate (nat total_pixels) 0 @ drop (nat total_pixels) (result_data b)\<rparr>)
      else do {
        resp \<leftarrow> accumulation_stage b rows cols num_angles kernel_length margin_y margin_x;
        nh \<leftarrow> combine_normalize resp;
        target \<leftarrow> compute_target total_pixels threshold_percentile;
        Some (b\<lparr>result_data :=
                   binarize (fst nh) (select_threshold (snd nh) target)
                     @ drop (nat total_pixels) (result_data b)\<rparr>)
      })"

section \<open>Preconditions and the quantities the specification names\<close>

text \<open>
  The sum over the kernel taps of angle \<open>a\<close> at the pixel with linear index \<open>base_idx\<close>, as
  the specification writes it: the samples read as unsigned numbers, added without
  wrap-around.
\<close>

definition tap_sum :: "u8 list \<Rightarrow> i32 list \<Rightarrow> int \<Rightarrow> int \<Rightarrow> int \<Rightarrow> int" where
  "tap_sum img offsets kernel_length a base_idx =
     (\<Sum>k\<leftarrow>[0 .. kernel_length - 1].
        uint (img ! nat (base_idx + sint (offsets ! nat (a * kernel_length + k)))))"

text \<open>Every tap of angle \<open>a\<close> at this pixel reads inside the offset table and inside the image.\<close>

definition taps_in_bounds :: "u8 list \<Rightarrow> i32 list \<Rightarrow> int \<Rightarrow> int \<Rightarrow> int \<Rightarrow> bool" where
  "taps_in_bounds img offsets kernel_length a base_idx \<longleftrightarrow>
     (\<forall>k\<in>set [0 .. kernel_length - 1].
        0 \<le> a * kernel_length + k \<and> a * kernel_length + k < int (length offsets) \<and>
        0 \<le> base_idx + sint (offsets ! nat (a * kernel_length + k)) \<and>
        base_idx + sint (offsets ! nat (a * kernel_length + k)) < int (length img))"

text \<open>The interior region \<open>[margin_y, rows - margin_y) \<times> [margin_x, cols - margin_x)\<close>.\<close>

definition interior :: "int \<Rightarrow> int \<Rightarrow> int \<Rightarrow> int \<Rightarrow> int \<Rightarrow> int \<Rightarrow> bool" where
  "interior rows cols margin_y margin_x y x \<longleftrightarrow>
     margin_y \<le> y \<and> y < rows - margin_y \<and> margin_x \<le> x \<and> x < cols - margin_x"

text \<open>
  The caller's obligations of the interface: sizes and counts are not negative, the pixel
  count and the size of an offset table fit \<^verbatim>\<open>int\<close>, the three images have \<open>rows * cols\<close>
  bytes, and every offset applied at every interior pixel stays inside its table and its
  image. The interface also asks for \<open>margin_y < rows / 2\<close> and \<open>margin_x < cols / 2\<close>; nothing
  below needs it, since without it the interior is empty.
\<close>

definition valid_inputs :: "buffers \<Rightarrow> int \<Rightarrow> int \<Rightarrow> int \<Rightarrow> int \<Rightarrow> int \<Rightarrow> int \<Rightarrow> bool" where
  "valid_inputs b rows cols num_angles kernel_length margin_y margin_x \<longleftrightarrow>
     0 \<le> rows \<and> 0 \<le> cols \<and> rows * cols < 2 ^ 31 \<and>
     0 \<le> num_angles \<and> 0 \<le> kernel_length \<and> num_angles * kernel_length < 2 ^ 31 \<and>
     0 \<le> margin_y \<and> 0 \<le> margin_x \<and>
     int (length (gy_data b)) = rows * cols \<and>
     int (length (gx_data b)) = rows * cols \<and>
     int (length (result_data b)) = rows * cols \<and>
     (\<forall>a\<in>set [0 .. num_angles - 1].
        \<forall>y\<in>set [margin_y .. rows - margin_y - 1].
          \<forall>x\<in>set [margin_x .. cols - margin_x - 1].
            taps_in_bounds (gy_data b) (h_offsets b) kernel_length a (y * cols + x) \<and>
            taps_in_bounds (gx_data b) (v_offsets b) kernel_length a (y * cols + x))"

text \<open>
  A percentile in \<open>[0, 1]\<close>. The pixel count is kept at or below \<open>2 ^ 31 - 128\<close>, the
  largest \<^verbatim>\<open>int\<close> that single precision represents: above it the count converts to
  \<open>2 ^ 31\<close>, and the conversion of the product back to \<^verbatim>\<open>int\<close> is undefined at percentile 1.
\<close>

definition valid_percentile :: "int \<Rightarrow> f32 \<Rightarrow> bool" where
  "valid_percentile total_pixels threshold_percentile \<longleftrightarrow>
     0 \<le> f32_val threshold_percentile \<and> f32_val threshold_percentile \<le> 1 \<and>
     total_pixels \<le> 2 ^ 31 - 128"

subsection \<open>The scenarios of the specification\<close>

text \<open>
  Scenario B: a 3 by 3 image whose only non-zero samples are at the centre, 100 in the
  first channel and 50 in the second; one angle, one tap, offset 0. The result buffer starts
  with arbitrary bytes. The percentile 0.9 is the binary32 value \<open>15099494 * 2 ^ - 24\<close>.
\<close>

definition scenario_B :: buffers where
  "scenario_B =
     \<lparr>gy_data = [0, 0, 0, 0, 100, 0, 0, 0, 0], gx_data = [0, 0, 0, 0, 50, 0, 0, 0, 0],
      result_data = [7, 7, 7, 7, 7, 7, 7, 7, 7], h_offsets = [0], v_offsets = [0]\<rparr>"

definition percentile_09 :: f32 where
  "percentile_09 = Float32 15099494 (- 24)"

text \<open>
  Scenario C: two angles of two taps each on a 3 by 3 image. At the centre the first
  channel sums to 7 for angle 0 and to 5 for angle 1, the second channel to 5 and to 13.
\<close>

definition scenario_C :: buffers where
  "scenario_C =
     \<lparr>gy_data = [0, 0, 0, 3, 2, 5, 0, 0, 0], gx_data = [0, 1, 0, 0, 4, 0, 0, 9, 0],
      result_data = [0, 0, 0, 0, 0, 0, 0, 0, 0],
      h_offsets = [0, 1, - 1, 0], v_offsets = [- 3, 0, 0, 3]\<rparr>"

text \<open>The number of pixels of a normalised image whose value is at most \<open>t\<close>.\<close>

definition count_le :: "u8 list \<Rightarrow> int \<Rightarrow> int" where
  "count_le normalized t = int (length (filter (\<lambda>p. uint p \<le> t) normalized))"

text \<open>The running sum of the histogram after bin \<open>i\<close>.\<close>

definition running_sum :: "int list \<Rightarrow> int \<Rightarrow> int" where
  "running_sum histogram i = sum_list (take (nat i + 1) histogram)"

text \<open>
  A flat input: two all-zero gradient images of \<open>rows * cols\<close> samples, one angle, one tap
  with offset 0.
\<close>

definition flat_image :: "int \<Rightarrow> int \<Rightarrow> buffers" where
  "flat_image rows cols =
     \<lparr>gy_data = replicate (nat (rows * cols)) 0, gx_data = replicate (nat (rows * cols)) 0,
      result_data = replicate (nat (rows * cols)) 0, h_offsets = [0], v_offsets = [0]\<rparr>"

subsection \<open>Auxiliary functions of the proofs\<close>

text \<open>The signed maximum that \<^verbatim>\<open>if (sum > response) response = sum\<close> leaves in the buffer.\<close>

definition smax :: "i32 \<Rightarrow> i32 \<Rightarrow> i32" where
  "smax old s = (if sint old < sint s then s else old)"

text \<open>One pixel of one angle, as an update of the two accumulator buffers that cannot fail.\<close>

definition pixel_update ::
  "buffers \<Rightarrow> int \<Rightarrow> int \<Rightarrow> int \<Rightarrow> i32 list \<times> i32 list \<Rightarrow> i32 list \<times> i32 list" where
  "pixel_update b kernel_length a idx resp =
     ((fst resp)[nat idx := smax (fst resp ! nat idx)
         (word_of_int (tap_sum (gy_data b) (h_offsets b) kernel_length a idx))],
      (snd resp)[nat idx := smax (snd resp ! nat idx)
         (word_of_int (tap_sum (gx_data b) (v_offsets b) kernel_length a idx))])"

text \<open>The clamped value of a pixel when the division is defined.\<close>

definition normalized_value :: "i32 \<Rightarrow> i32 \<Rightarrow> int" where
  "normalized_value c global_max =
     clamp (signed_take_bit 31
       (sgn (sint c * 255) * sgn (sint global_max) * (\<bar>sint c * 255\<bar> div \<bar>sint global_max\<bar>)))"

text \<open>\<^verbatim>\<open>histogram[normalized]++\<close> as an update that cannot fail.\<close>

definition bump :: "int \<Rightarrow> int list \<Rightarrow> int list" where
  "bump n histogram = histogram[nat n := histogram ! nat n + 1]"

text \<open>
  Rounding to 24 significant bits on a magnitude: the rounded quotient after dropping \<open>d\<close>
  bits, and the rounded magnitude.
\<close>

definition round_quotient :: "int \<Rightarrow> nat \<Rightarrow> int" where
  "round_quotient a d =
     (if 2 ^ d < 2 * (a mod 2 ^ d) \<or> (2 * (a mod 2 ^ d) = 2 ^ d \<and> odd (a div 2 ^ d))
      then a div 2 ^ d + 1 else a div 2 ^ d)"

definition rnd :: "int \<Rightarrow> int" where
  "rnd a = round_quotient a (excess_bits a) * 2 ^ excess_bits a"

text \<open>The linear indices of the interior pixels, in the order the loops visit them.\<close>

definition interior_pixels :: "int \<Rightarrow> int \<Rightarrow> int \<Rightarrow> int \<Rightarrow> int list" where
  "interior_pixels rows cols margin_y margin_x =
     concat (map (\<lambda>y. map (\<lambda>x. y * cols + x) [margin_x .. cols - margin_x - 1])
                 [margin_y .. rows - margin_y - 1])"

section \<open>Properties of the combining pass\<close>

lemma combine_pass_max_ge: "sint g \<le> sint (snd (combine_pass hs vs g))"
proof (induction hs vs g rule: combine_pass.induct)
  case (1 h hs v vs g)
  then show ?case by (auto simp: Let_def split: if_splits)
qed simp_all

lemma combine_pass_length: "length (fst (combine_pass hs vs g)) = min (length hs) (length vs)"
  by (induction hs vs g rule: combine_pass.induct) (simp_all add: Let_def)

lemma combine_pass_nth:
  "i < length hs \<Longrightarrow> i < length vs \<Longrightarrow>
     fst (combine_pass hs vs g) ! i = (if sint (vs ! i) < sint (hs ! i) then hs ! i else vs ! i)"
proof (induction hs vs g arbitrary: i rule: combine_pass.induct)
  case (1 h hs v vs g)
  then show ?case by (cases i) (simp_all add: Let_def)
qed simp_all

lemma combine_pass_bound:
  "c \<in> set (fst (combine_pass hs vs g)) \<Longrightarrow> sint c \<le> sint (snd (combine_pass hs vs g))"
proof (induction hs vs g rule: combine_pass.induct)
  case (1 h hs v vs g)
  let ?c = "if sint v < sint h then h else v"
  let ?g = "if sint g < sint ?c then ?c else g"
  from "1.prems" have "c = ?c \<or> c \<in> set (fst (combine_pass hs vs ?g))"
    by (auto simp: Let_def split: if_splits)
  then show ?case
  proof
    assume "c = ?c"
    moreover have "sint ?g \<le> sint (snd (combine_pass hs vs ?g))" by (rule combine_pass_max_ge)
    ultimately show ?thesis by (auto simp: Let_def split: if_splits)
  next
    assume "c \<in> set (fst (combine_pass hs vs ?g))"
    then show ?thesis using "1.IH"[OF refl] by (simp add: Let_def)
  qed
qed simp_all

section \<open>The accumulation stage\<close>

lemma kernel_taps_Some:
  assumes "\<forall>k\<in>set ks.
        0 \<le> off + k \<and> off + k < int (length (h_offsets b)) \<and>
        0 \<le> idx + sint (h_offsets b ! nat (off + k)) \<and>
        idx + sint (h_offsets b ! nat (off + k)) < int (length (gy_data b)) \<and>
        off + k < int (length (v_offsets b)) \<and>
        0 \<le> idx + sint (v_offsets b ! nat (off + k)) \<and>
        idx + sint (v_offsets b ! nat (off + k)) < int (length (gx_data b))"
  shows "kernel_taps b off idx ks s =
     Some (fst s + word_of_int (\<Sum>k\<leftarrow>ks. uint (gy_data b ! nat (idx + sint (h_offsets b ! nat (off + k))))),
           snd s + word_of_int (\<Sum>k\<leftarrow>ks. uint (gx_data b ! nat (idx + sint (v_offsets b ! nat (off + k))))))"
  using assms
proof (induction ks arbitrary: s)
  case Nil
  then show ?case by simp
next
  case (Cons k ks)
  let ?P = "\<lambda>k. 0 \<le> off + k \<and> off + k < int (length (h_offsets b)) \<and>
        0 \<le> idx + sint (h_offsets b ! nat (off + k)) \<and>
        idx + sint (h_offsets b ! nat (off + k)) < int (length (gy_data b)) \<and>
        off + k < int (length (v_offsets b)) \<and>
        0 \<le> idx + sint (v_offsets b ! nat (off + k)) \<and>
        idx + sint (v_offsets b ! nat (off + k)) < int (length (gx_data b))"
  from Cons.prems have hd: "?P k" and tl: "\<forall>k\<in>set ks. ?P k"
    by simp_all
  have l1: "load (h_offsets b) (off + k) = Some (h_offsets b ! nat (off + k))"
    using hd by (simp add: load_def)
  have l2: "load (gy_data b) (idx + sint (h_offsets b ! nat (off + k)))
              = Some (gy_data b ! nat (idx + sint (h_offsets b ! nat (off + k))))"
    using hd by (simp add: load_def)
  have l3: "load (v_offsets b) (off + k) = Some (v_offsets b ! nat (off + k))"
    using hd by (simp add: load_def)
  have l4: "load (gx_data b) (idx + sint (v_offsets b ! nat (off + k)))
              = Some (gx_data b ! nat (idx + sint (v_offsets b ! nat (off + k))))"
    using hd by (simp add: load_def)
  show ?case
    by (simp only: kernel_taps.simps l1 l2 l3 l4 Option.bind.simps Cons.IH[OF tl])
       (simp add: add.assoc)
qed

lemma kernel_taps_tap_sum:
  assumes "taps_in_bounds (gy_data b) (h_offsets b) kernel_length a idx"
      and "taps_in_bounds (gx_data b) (v_offsets b) kernel_length a idx"
  shows "kernel_taps b (a * kernel_length) idx [0 .. kernel_length - 1] (0, 0) =
     Some (word_of_int (tap_sum (gy_data b) (h_offsets b) kernel_length a idx),
           word_of_int (tap_sum (gx_data b) (v_offsets b) kernel_length a idx))"
  using assms by (subst kernel_taps_Some) (auto simp: taps_in_bounds_def tap_sum_def)

lemma keep_max_Some:
  "0 \<le> idx \<Longrightarrow> idx < int (length r) \<Longrightarrow>
     keep_max r idx s = Some (r[nat idx := smax (r ! nat idx) s])"
  by (simp add: keep_max_def load_def store_def smax_def)

lemma accumulate_pixel_Some:
  assumes "taps_in_bounds (gy_data b) (h_offsets b) kernel_length a idx"
      and "taps_in_bounds (gx_data b) (v_offsets b) kernel_length a idx"
      and "0 \<le> idx" "idx < int (length (fst resp))" "idx < int (length (snd resp))"
  shows "accumulate_pixel b kernel_length a idx resp = Some (pixel_update b kernel_length a idx resp)"
  using assms
  by (simp add: accumulate_pixel_def kernel_taps_tap_sum keep_max_Some pixel_update_def)

lemma for_each_pure:
  assumes "\<And>x s. x \<in> set xs \<Longrightarrow> I s \<Longrightarrow> body x s = Some (g x s) \<and> I (g x s)"
      and "I s"
  shows "for_each body xs s = Some (fold g xs s) \<and> I (fold g xs s)"
  using assms
proof (induction xs arbitrary: s)
  case Nil
  then show ?case by simp
next
  case (Cons x xs)
  have step: "body x s = Some (g x s) \<and> I (g x s)" using Cons.prems by simp
  have "for_each body xs (g x s) = Some (fold g xs (g x s)) \<and> I (fold g xs (g x s))"
    by (rule Cons.IH) (use Cons.prems step in auto)
  with step show ?case by simp
qed

lemma pixel_update_length:
  "length (fst (pixel_update b kl a idx resp)) = length (fst resp)"
  "length (snd (pixel_update b kl a idx resp)) = length (snd resp)"
  by (simp_all add: pixel_update_def)

lemma fold_pixel_update_length:
  "length (fst (fold (pixel_update b kl a) ps resp)) = length (fst resp)
   \<and> length (snd (fold (pixel_update b kl a) ps resp)) = length (snd resp)"
  by (induction ps arbitrary: resp) (simp_all add: pixel_update_length)

lemma interior_pixels_fold:
  "fold f (interior_pixels rows cols my mx) s =
     fold (\<lambda>y. fold (\<lambda>x. f (y * cols + x)) [mx .. cols - mx - 1]) [my .. rows - my - 1] s"
proof -
  have "fold f (concat (map g ys)) s = fold (\<lambda>y. fold f (g y)) ys s" for g :: "int \<Rightarrow> int list" and ys
    by (induction ys arbitrary: s) simp_all
  then show ?thesis
    by (simp add: interior_pixels_def fold_map comp_def)
qed

lemma set_concat_map2:
  "p \<in> set (concat (map (\<lambda>y. map (f y) xs) ys)) \<longleftrightarrow> (\<exists>y\<in>set ys. \<exists>x\<in>set xs. p = f y x)"
  by auto

lemma interior_pixels_iff:
  "p \<in> set (interior_pixels rows cols my mx) \<longleftrightarrow>
     (\<exists>y x. interior rows cols my mx y x \<and> p = y * cols + x)"
proof -
  have "p \<in> set (interior_pixels rows cols my mx) \<longleftrightarrow>
      (\<exists>y\<in>set [my .. rows - my - 1]. \<exists>x\<in>set [mx .. cols - mx - 1]. p = y * cols + x)"
    unfolding interior_pixels_def by (rule set_concat_map2)
  also have "\<dots> \<longleftrightarrow> (\<exists>y x. interior rows cols my mx y x \<and> p = y * cols + x)"
    by (simp add: interior_def Bex_def)
  finally show ?thesis .
qed

lemma interior_in_range:
  assumes "interior rows cols my mx y x" "0 \<le> my" "0 \<le> mx"
  shows "0 \<le> y * cols + x \<and> y * cols + x < rows * cols"
proof -
  from assms have y: "0 \<le> y" "y + 1 \<le> rows" and x: "0 \<le> x" "x < cols"
    by (auto simp: interior_def)
  have "0 \<le> y * cols" using y x by simp
  moreover have "(y + 1) * cols \<le> rows * cols"
    using y x by (intro mult_right_mono) auto
  ultimately show ?thesis using x by (simp add: algebra_simps)
qed

lemma accumulate_angle_Some:
  assumes v: "valid_inputs b rows cols num_angles kl my mx"
      and a: "0 \<le> a" "a < num_angles"
      and len: "int (length (fst resp)) = rows * cols" "int (length (snd resp)) = rows * cols"
  shows "accumulate_angle b rows cols kl my mx a resp =
           Some (fold (pixel_update b kl a) (interior_pixels rows cols my mx) resp)"
proof -
  let ?I = "\<lambda>r :: i32 list \<times> i32 list.
              int (length (fst r)) = rows * cols \<and> int (length (snd r)) = rows * cols"
  have inner: "for_each (\<lambda>x. accumulate_pixel b kl a (y * cols + x)) [mx .. cols - mx - 1] s
        = Some (fold (\<lambda>x. pixel_update b kl a (y * cols + x)) [mx .. cols - mx - 1] s)
      \<and> ?I (fold (\<lambda>x. pixel_update b kl a (y * cols + x)) [mx .. cols - mx - 1] s)"
    if y: "y \<in> set [my .. rows - my - 1]" and s: "?I s" for y s
  proof (rule for_each_pure[where I = ?I])
    show "?I s" by (rule s)
  next
    fix x s'
    assume x: "x \<in> set [mx .. cols - mx - 1]" and s': "?I s'"
    have int: "interior rows cols my mx y x" using x y by (simp add: interior_def)
    have rng: "0 \<le> y * cols + x \<and> y * cols + x < rows * cols"
      using interior_in_range[OF int] v by (simp add: valid_inputs_def)
    have tb: "taps_in_bounds (gy_data b) (h_offsets b) kl a (y * cols + x)
            \<and> taps_in_bounds (gx_data b) (v_offsets b) kl a (y * cols + x)"
      using v a x y by (simp add: valid_inputs_def)
    show "accumulate_pixel b kl a (y * cols + x) s' = Some (pixel_update b kl a (y * cols + x) s')
          \<and> ?I (pixel_update b kl a (y * cols + x) s')"
      using accumulate_pixel_Some[of b kl a "y * cols + x" s'] tb rng s'
      by (simp add: pixel_update_length)
  qed
  have outer: "for_each (\<lambda>y. for_each (\<lambda>x. accumulate_pixel b kl a (y * cols + x)) [mx .. cols - mx - 1])
          [my .. rows - my - 1] resp
        = Some (fold (\<lambda>y. fold (\<lambda>x. pixel_update b kl a (y * cols + x)) [mx .. cols - mx - 1])
                  [my .. rows - my - 1] resp)
      \<and> ?I (fold (\<lambda>y. fold (\<lambda>x. pixel_update b kl a (y * cols + x)) [mx .. cols - mx - 1])
                  [my .. rows - my - 1] resp)"
    by (rule for_each_pure[where I = ?I]) (use inner len in auto)
  then show ?thesis
    by (simp add: accumulate_angle_def interior_pixels_fold)
qed

lemma smax_idem: "smax (smax x s) s = smax x s"
  by (simp add: smax_def)

lemma fold_pixel_update_nth:
  assumes "\<forall>p\<in>set ps. 0 \<le> p"
  shows "j < length (fst resp) \<Longrightarrow>
         fst (fold (pixel_update b kl a) ps resp) ! j =
           (if int j \<in> set ps
            then smax (fst resp ! j) (word_of_int (tap_sum (gy_data b) (h_offsets b) kl a (int j)))
            else fst resp ! j)"
    and "j < length (snd resp) \<Longrightarrow>
         snd (fold (pixel_update b kl a) ps resp) ! j =
           (if int j \<in> set ps
            then smax (snd resp ! j) (word_of_int (tap_sum (gx_data b) (v_offsets b) kl a (int j)))
            else snd resp ! j)"
  using assms
proof (induction ps arbitrary: resp)
  case Nil
  { case 1 then show ?case by simp }
  { case 2 then show ?case by simp }
next
  case (Cons p ps)
  { case 1
    have p: "0 \<le> p" and ps: "\<forall>p\<in>set ps. 0 \<le> p" using 1 by simp_all
    have eq: "nat p = j \<longleftrightarrow> p = int j" using p by auto
    have "fst (fold (pixel_update b kl a) (p # ps) resp) ! j
          = fst (fold (pixel_update b kl a) ps (pixel_update b kl a p resp)) ! j" by simp
    also have "\<dots> = (if int j \<in> set ps
            then smax (fst (pixel_update b kl a p resp) ! j) (word_of_int (tap_sum (gy_data b) (h_offsets b) kl a (int j)))
            else fst (pixel_update b kl a p resp) ! j)"
      using Cons.IH(1)[of "pixel_update b kl a p resp"] 1 ps by (simp add: pixel_update_length)
    also have "fst (pixel_update b kl a p resp) ! j =
        (if p = int j then smax (fst resp ! j) (word_of_int (tap_sum (gy_data b) (h_offsets b) kl a (int j)))
         else fst resp ! j)"
      using 1(1) eq by (auto simp: pixel_update_def nth_list_update)
    finally show ?case by (auto simp: smax_idem)
  }
  { case 2
    have p: "0 \<le> p" and ps: "\<forall>p\<in>set ps. 0 \<le> p" using 2 by simp_all
    have eq: "nat p = j \<longleftrightarrow> p = int j" using p by auto
    have "snd (fold (pixel_update b kl a) (p # ps) resp) ! j
          = snd (fold (pixel_update b kl a) ps (pixel_update b kl a p resp)) ! j" by simp
    also have "\<dots> = (if int j \<in> set ps
            then smax (snd (pixel_update b kl a p resp) ! j) (word_of_int (tap_sum (gx_data b) (v_offsets b) kl a (int j)))
            else snd (pixel_update b kl a p resp) ! j)"
      using Cons.IH(2)[of "pixel_update b kl a p resp"] 2 ps by (simp add: pixel_update_length)
    also have "snd (pixel_update b kl a p resp) ! j =
        (if p = int j then smax (snd resp ! j) (word_of_int (tap_sum (gx_data b) (v_offsets b) kl a (int j)))
         else snd resp ! j)"
      using 2(1) eq by (auto simp: pixel_update_def nth_list_update)
    finally show ?case by (auto simp: smax_idem)
  }
qed

lemma accumulate_angles_Some:
  assumes v: "valid_inputs b rows cols num_angles kl my mx"
      and as: "\<forall>a\<in>set angles. 0 \<le> a \<and> a < num_angles"
      and len: "int (length (fst resp)) = rows * cols" "int (length (snd resp)) = rows * cols"
  shows "accumulate_angles b rows cols kl my mx angles resp =
           Some (fold (\<lambda>a. fold (pixel_update b kl a) (interior_pixels rows cols my mx)) angles resp)"
proof -
  let ?I = "\<lambda>r :: i32 list \<times> i32 list.
              int (length (fst r)) = rows * cols \<and> int (length (snd r)) = rows * cols"
  have "for_each (accumulate_angle b rows cols kl my mx) angles resp =
          Some (fold (\<lambda>a. fold (pixel_update b kl a) (interior_pixels rows cols my mx)) angles resp)
        \<and> ?I (fold (\<lambda>a. fold (pixel_update b kl a) (interior_pixels rows cols my mx)) angles resp)"
  proof (rule for_each_pure[where I = ?I])
    show "?I resp" using len by simp
  next
    fix a s
    assume a: "a \<in> set angles" and s: "?I s"
    show "accumulate_angle b rows cols kl my mx a s =
            Some (fold (pixel_update b kl a) (interior_pixels rows cols my mx) s)
          \<and> ?I (fold (pixel_update b kl a) (interior_pixels rows cols my mx) s)"
      using accumulate_angle_Some[OF v, of a s] as a s
      by (simp add: fold_pixel_update_length)
  qed
  then show ?thesis by (simp add: accumulate_angles_def)
qed

lemma fold_angles_length:
  "length (fst (fold (\<lambda>a. fold (pixel_update b kl a) ps) angles resp)) = length (fst resp)
   \<and> length (snd (fold (\<lambda>a. fold (pixel_update b kl a) ps) angles resp)) = length (snd resp)"
  by (induction angles arbitrary: resp) (simp_all add: fold_pixel_update_length)

lemma fold_angles_nth:
  assumes "\<forall>p\<in>set ps. 0 \<le> p"
  shows "j < length (fst resp) \<Longrightarrow>
         fst (fold (\<lambda>a. fold (pixel_update b kl a) ps) angles resp) ! j =
           (if int j \<in> set ps
            then fold (\<lambda>a acc. smax acc (word_of_int (tap_sum (gy_data b) (h_offsets b) kl a (int j))))
                   angles (fst resp ! j)
            else fst resp ! j)"
    and "j < length (snd resp) \<Longrightarrow>
         snd (fold (\<lambda>a. fold (pixel_update b kl a) ps) angles resp) ! j =
           (if int j \<in> set ps
            then fold (\<lambda>a acc. smax acc (word_of_int (tap_sum (gx_data b) (v_offsets b) kl a (int j))))
                   angles (snd resp ! j)
            else snd resp ! j)"
proof (induction angles arbitrary: resp)
  case Nil
  { case 1 then show ?case by simp }
  { case 2 then show ?case by simp }
next
  case (Cons a angles)
  { case 1
    then show ?case
      using Cons.IH(1)[of "fold (pixel_update b kl a) ps resp"]
            fold_pixel_update_nth(1)[OF assms, of j resp b kl a]
      by (simp add: fold_pixel_update_length)
  }
  { case 2
    then show ?case
      using Cons.IH(2)[of "fold (pixel_update b kl a) ps resp"]
            fold_pixel_update_nth(2)[OF assms, of j resp b kl a]
      by (simp add: fold_pixel_update_length)
  }
qed

lemma sint_smax: "sint (smax x s) = max (sint x) (sint s)"
  by (simp add: smax_def max_def)

lemma sint_fold_smax:
  "sint (fold (\<lambda>a acc. smax acc (w a)) angles x) = Max (insert (sint x) ((\<lambda>a. sint (w a)) ` set angles))"
proof (induction angles arbitrary: x)
  case Nil
  then show ?case by simp
next
  case (Cons a angles)
  have "Max (insert (sint (smax x (w a))) ((\<lambda>a. sint (w a)) ` set angles))
        = Max (insert (sint x) (insert (sint (w a)) ((\<lambda>a. sint (w a)) ` set angles)))"
    by (cases "set angles = {}") (simp_all add: sint_smax max.assoc)
  then show ?case by (simp add: Cons.IH)
qed

lemma fold_smax_set_cong:
  assumes "set as = set bs"
  shows "fold (\<lambda>a acc. smax acc (w a)) as x = fold (\<lambda>a acc. smax acc (w a)) bs x"
proof (rule signed_word_eqI[where 'a = int])
  show "sint (fold (\<lambda>a acc. smax acc (w a)) as x) = sint (fold (\<lambda>a acc. smax acc (w a)) bs x)"
    by (simp add: sint_fold_smax assms)
qed

lemma tap_sum_bounds:
  "0 \<le> tap_sum img offs kl a idx \<and> tap_sum img offs kl a idx \<le> 255 * max 0 kl"
proof -
  have "0 \<le> (\<Sum>k\<leftarrow>ks. uint (f k :: u8)) \<and> (\<Sum>k\<leftarrow>ks. uint (f k :: u8)) \<le> 255 * int (length ks)"
    for f :: "int \<Rightarrow> u8" and ks :: "int list"
  proof (induction ks)
    case Nil
    then show ?case by simp
  next
    case (Cons k ks)
    have "uint (f k) < 2 ^ 8" using uint_bounded[of "f k"] by simp
    with Cons show ?case by simp
  qed
  from this[of "\<lambda>k. img ! nat (idx + sint (offs ! nat (a * kl + k)))" "[0 .. kl - 1]"]
  show ?thesis by (simp add: tap_sum_def max_def)
qed

lemma sint_tap_sum:
  assumes "kl * 255 < 2 ^ 31"
  shows "sint (word_of_int (tap_sum img offs kl a idx) :: i32) = tap_sum img offs kl a idx"
proof -
  have "0 \<le> tap_sum img offs kl a idx" "tap_sum img offs kl a idx < 2 ^ 31"
    using tap_sum_bounds[of img offs kl a idx] assms by (auto simp: max_def split: if_splits)
  then show ?thesis
    by (simp add: sint_sbintrunc' signed_take_bit_int_eq_self)
qed

lemma interior_pixels_nonneg:
  assumes "valid_inputs b rows cols num_angles kl my mx"
  shows "\<forall>p\<in>set (interior_pixels rows cols my mx). 0 \<le> p \<and> p < rows * cols"
proof
  fix p assume "p \<in> set (interior_pixels rows cols my mx)"
  then obtain y x where "interior rows cols my mx y x" "p = y * cols + x"
    by (auto simp: interior_pixels_iff)
  then show "0 \<le> p \<and> p < rows * cols"
    using interior_in_range[of rows cols my mx y x] assms by (simp add: valid_inputs_def)
qed

lemma accumulation_stage_Some:
  assumes v: "valid_inputs b rows cols num_angles kl my mx"
      and as: "\<forall>a\<in>set angles. 0 \<le> a \<and> a < num_angles"
  shows "accumulate_angles b rows cols kl my mx angles
           (replicate (nat (rows * cols)) 0, replicate (nat (rows * cols)) 0) =
         Some (fold (\<lambda>a. fold (pixel_update b kl a) (interior_pixels rows cols my mx)) angles
                 (replicate (nat (rows * cols)) 0, replicate (nat (rows * cols)) 0))"
proof -
  have "0 \<le> rows * cols" using v by (simp add: valid_inputs_def)
  then show ?thesis
    by (intro accumulate_angles_Some[OF v as]) simp_all
qed

text \<open>The value of an accumulator after the angles of a list, at any pixel.\<close>

lemma accumulated_nth:
  assumes v: "valid_inputs b rows cols num_angles kl my mx"
      and j: "int j < rows * cols"
  defines "res \<equiv> \<lambda>angles. fold (\<lambda>a. fold (pixel_update b kl a) (interior_pixels rows cols my mx)) angles
                 (replicate (nat (rows * cols)) 0, replicate (nat (rows * cols)) 0)"
  shows "fst (res angles) ! j =
           (if int j \<in> set (interior_pixels rows cols my mx)
            then fold (\<lambda>a acc. smax acc (word_of_int (tap_sum (gy_data b) (h_offsets b) kl a (int j))))
                   angles 0
            else 0)"
    and "snd (res angles) ! j =
           (if int j \<in> set (interior_pixels rows cols my mx)
            then fold (\<lambda>a acc. smax acc (word_of_int (tap_sum (gx_data b) (v_offsets b) kl a (int j))))
                   angles 0
            else 0)"
proof -
  have nn: "\<forall>p\<in>set (interior_pixels rows cols my mx). 0 \<le> p"
    using interior_pixels_nonneg[OF v] by blast
  have jn: "j < nat (rows * cols)" using j by simp
  show "fst (res angles) ! j =
           (if int j \<in> set (interior_pixels rows cols my mx)
            then fold (\<lambda>a acc. smax acc (word_of_int (tap_sum (gy_data b) (h_offsets b) kl a (int j))))
                   angles 0
            else 0)"
    unfolding res_def using fold_angles_nth(1)[OF nn, of j "(replicate (nat (rows * cols)) 0, replicate (nat (rows * cols)) 0)" b kl angles] jn
    by simp
  show "snd (res angles) ! j =
           (if int j \<in> set (interior_pixels rows cols my mx)
            then fold (\<lambda>a acc. smax acc (word_of_int (tap_sum (gx_data b) (v_offsets b) kl a (int j))))
                   angles 0
            else 0)"
    unfolding res_def using fold_angles_nth(2)[OF nn, of j "(replicate (nat (rows * cols)) 0, replicate (nat (rows * cols)) 0)" b kl angles] jn
    by simp
qed

lemma accumulated_set_cong:
  assumes v: "valid_inputs b rows cols num_angles kl my mx"
      and eq: "set as = set bs"
  shows "fold (\<lambda>a. fold (pixel_update b kl a) (interior_pixels rows cols my mx)) as
                 (replicate (nat (rows * cols)) 0, replicate (nat (rows * cols)) 0)
       = fold (\<lambda>a. fold (pixel_update b kl a) (interior_pixels rows cols my mx)) bs
                 (replicate (nat (rows * cols)) 0, replicate (nat (rows * cols)) 0)"
    (is "?A = ?B")
proof (rule prod_eqI)
  show "fst ?A = fst ?B"
  proof (rule nth_equalityI)
    show "length (fst ?A) = length (fst ?B)" by (simp add: fold_angles_length)
  next
    fix j assume "j < length (fst ?A)"
    then have j: "int j < rows * cols" by (simp add: fold_angles_length)
    show "fst ?A ! j = fst ?B ! j"
      unfolding accumulated_nth(1)[OF v j]
      by (simp add: fold_smax_set_cong[OF eq])
  qed
  show "snd ?A = snd ?B"
  proof (rule nth_equalityI)
    show "length (snd ?A) = length (snd ?B)" by (simp add: fold_angles_length)
  next
    fix j assume "j < length (snd ?A)"
    then have j: "int j < rows * cols" by (simp add: fold_angles_length)
    show "snd ?A ! j = snd ?B ! j"
      unfolding accumulated_nth(2)[OF v j]
      by (simp add: fold_smax_set_cong[OF eq])
  qed
qed

lemma Max_insert_zero:
  assumes "finite S" "S \<noteq> {}" "\<forall>s\<in>S. (0::int) \<le> s"
  shows "Max (insert 0 S) = Max S"
proof -
  obtain s where "s \<in> S" using assms(2) by blast
  then have "0 \<le> Max S" using assms by (meson Max_ge order_trans)
  then show ?thesis using assms by (simp add: max_def)
qed

lemma sint_accumulated:
  assumes kl: "kl * 255 < 2 ^ 31" and na: "0 < num_angles"
  shows "sint (fold (\<lambda>a acc. smax acc (word_of_int (tap_sum img offs kl a p) :: i32)) [0 .. num_angles - 1] 0)
         = Max ((\<lambda>a. tap_sum img offs kl a p) ` {0 ..< num_angles})"
proof -
  have set: "set [0 .. num_angles - 1] = {0 ..< num_angles}" by auto
  have "sint (fold (\<lambda>a acc. smax acc (word_of_int (tap_sum img offs kl a p) :: i32)) [0 .. num_angles - 1] 0)
        = Max (insert 0 ((\<lambda>a. tap_sum img offs kl a p) ` {0 ..< num_angles}))"
    by (simp only: sint_fold_smax sint_tap_sum[OF kl] set sint_0)
  also have "\<dots> = Max ((\<lambda>a. tap_sum img offs kl a p) ` {0 ..< num_angles})"
    using na tap_sum_bounds[of img offs kl _ p] by (intro Max_insert_zero) auto
  finally show ?thesis .
qed

text \<open>
  C2. For valid inputs whose kernel-tap sums fit the 32-bit accumulator and at least one
  angle, the accumulation stage returns two buffers that hold, at every interior pixel
  \<open>(y, x)\<close>, the maximum over the angles \<open>0 \<le> a < num_angles\<close> of the angle's tap sum
  (the samples added as unsigned numbers), one buffer per channel: the largest of the
  per-angle sums, not their total. The loop over the angles run on any list that holds
  exactly these angles, so in any order, returns the same two buffers.
\<close>

theorem accumulator_is_max_over_angles:
  assumes v: "valid_inputs b rows cols num_angles kernel_length margin_y margin_x"
      and kl: "kernel_length * 255 < 2 ^ 31" and na: "0 < num_angles"
  shows "\<exists>h_response v_response.
      accumulation_stage b rows cols num_angles kernel_length margin_y margin_x
        = Some (h_response, v_response)
    \<and> (\<forall>y x. interior rows cols margin_y margin_x y x \<longrightarrow>
          sint (h_response ! nat (y * cols + x))
            = Max ((\<lambda>a. tap_sum (gy_data b) (h_offsets b) kernel_length a (y * cols + x))
                     ` {0 ..< num_angles})
        \<and> sint (v_response ! nat (y * cols + x))
            = Max ((\<lambda>a. tap_sum (gx_data b) (v_offsets b) kernel_length a (y * cols + x))
                     ` {0 ..< num_angles}))
    \<and> (\<forall>angles. set angles = {0 ..< num_angles} \<longrightarrow>
          accumulate_angles b rows cols kernel_length margin_y margin_x angles
            (replicate (nat (rows * cols)) 0, replicate (nat (rows * cols)) 0)
          = Some (h_response, v_response))"
proof -
  let ?z = "(replicate (nat (rows * cols)) (0::i32), replicate (nat (rows * cols)) (0::i32))"
  let ?res = "\<lambda>angles. fold (\<lambda>a. fold (pixel_update b kernel_length a)
                 (interior_pixels rows cols margin_y margin_x)) angles ?z"
  have run: "accumulate_angles b rows cols kernel_length margin_y margin_x angles ?z = Some (?res angles)"
    if "set angles = {0 ..< num_angles}" for angles
    using accumulation_stage_Some[OF v, of angles] that by simp
  have set: "set [0 .. num_angles - 1] = {0 ..< num_angles}" by auto
  have stage: "accumulation_stage b rows cols num_angles kernel_length margin_y margin_x
                 = Some (?res [0 .. num_angles - 1])"
    unfolding accumulation_stage_def by (rule run[OF set])
  have px: "sint (fst (?res [0 .. num_angles - 1]) ! nat (y * cols + x))
            = Max ((\<lambda>a. tap_sum (gy_data b) (h_offsets b) kernel_length a (y * cols + x))
                     ` {0 ..< num_angles})
        \<and> sint (snd (?res [0 .. num_angles - 1]) ! nat (y * cols + x))
            = Max ((\<lambda>a. tap_sum (gx_data b) (v_offsets b) kernel_length a (y * cols + x))
                     ` {0 ..< num_angles})"
    if i: "interior rows cols margin_y margin_x y x" for y x
  proof -
    have mem: "y * cols + x \<in> set (interior_pixels rows cols margin_y margin_x)"
      using i by (auto simp: interior_pixels_iff)
    then have rng: "0 \<le> y * cols + x" "y * cols + x < rows * cols"
      using interior_pixels_nonneg[OF v] by auto
    then have j: "int (nat (y * cols + x)) < rows * cols" and jj: "int (nat (y * cols + x)) = y * cols + x"
      by simp_all
    show ?thesis
      unfolding accumulated_nth[OF v j] jj using mem
      by (simp add: sint_accumulated[OF kl na])
  qed
  have perm: "accumulate_angles b rows cols kernel_length margin_y margin_x angles ?z
                = Some (?res [0 .. num_angles - 1])"
    if s: "set angles = {0 ..< num_angles}" for angles
  proof -
    have "set angles = set [0 .. num_angles - 1]" using s set by simp
    from accumulated_set_cong[OF v this] show ?thesis using run[OF s] by simp
  qed
  show ?thesis
    apply (rule exI[of _ "fst (?res [0 .. num_angles - 1])"])
    apply (rule exI[of _ "snd (?res [0 .. num_angles - 1])"])
    using stage px perm by simp
qed

theorem accumulator_is_max_over_angles_witness:
  "valid_inputs scenario_C 3 3 2 2 1 1
   \<and> accumulation_stage scenario_C 3 3 2 2 1 1
       = Some ([0, 0, 0, 0, 7, 0, 0, 0, 0], [0, 0, 0, 0, 13, 0, 0, 0, 0])
   \<and> tap_sum (gy_data scenario_C) (h_offsets scenario_C) 2 0 4 = 7
   \<and> tap_sum (gy_data scenario_C) (h_offsets scenario_C) 2 1 4 = 5
   \<and> Max ((\<lambda>a. tap_sum (gy_data scenario_C) (h_offsets scenario_C) 2 a (1 * 3 + 1)) ` {0 ..< 2}) = 7
   \<and> Max ((\<lambda>a. tap_sum (gx_data scenario_C) (v_offsets scenario_C) 2 a (1 * 3 + 1)) ` {0 ..< 2}) = 13
   \<and> accumulate_angles scenario_C 3 3 2 1 1 [1, 0]
        (replicate (nat (3 * 3)) 0, replicate (nat (3 * 3)) 0)
       = Some ([0, 0, 0, 0, 7, 0, 0, 0, 0], [0, 0, 0, 0, 13, 0, 0, 0, 0])"
proof -
  have v: "valid_inputs scenario_C 3 3 2 2 1 1" by code_simp
  have r: "accumulation_stage scenario_C 3 3 2 2 1 1
       = Some ([0, 0, 0, 0, 7, 0, 0, 0, 0], [0, 0, 0, 0, 13, 0, 0, 0, 0])" by code_simp
  have t: "tap_sum (gy_data scenario_C) (h_offsets scenario_C) 2 0 4 = 7"
          "tap_sum (gy_data scenario_C) (h_offsets scenario_C) 2 1 4 = 5" by code_simp+
  have i: "interior 3 3 1 1 1 1" by (simp add: interior_def)
  have s: "set [1, 0 :: int] = {0 ..< 2}" by auto
  from accumulator_is_max_over_angles[OF v, of ] obtain h v' where
    st: "accumulation_stage scenario_C 3 3 2 2 1 1 = Some (h, v')"
    and mx: "\<And>y x. interior 3 3 1 1 y x \<Longrightarrow>
          sint (h ! nat (y * 3 + x))
            = Max ((\<lambda>a. tap_sum (gy_data scenario_C) (h_offsets scenario_C) 2 a (y * 3 + x)) ` {0 ..< 2})
        \<and> sint (v' ! nat (y * 3 + x))
            = Max ((\<lambda>a. tap_sum (gx_data scenario_C) (v_offsets scenario_C) 2 a (y * 3 + x)) ` {0 ..< 2})"
    and pm: "\<And>angles. set angles = {0 ..< 2} \<Longrightarrow>
          accumulate_angles scenario_C 3 3 2 1 1 angles
            (replicate (nat (3 * 3)) 0, replicate (nat (3 * 3)) 0) = Some (h, v')"
    by auto
  from st r have hv: "h = [0, 0, 0, 0, 7, 0, 0, 0, 0]" "v' = [0, 0, 0, 0, 13, 0, 0, 0, 0]" by simp_all
  from mx[OF i] hv have "Max ((\<lambda>a. tap_sum (gy_data scenario_C) (h_offsets scenario_C) 2 a (1 * 3 + 1)) ` {0 ..< 2}) = 7"
    "Max ((\<lambda>a. tap_sum (gx_data scenario_C) (v_offsets scenario_C) 2 a (1 * 3 + 1)) ` {0 ..< 2}) = 13"
    by simp_all
  with v r t pm[OF s] hv show ?thesis by simp
qed

section \<open>Normalisation and the histogram\<close>

lemma clamp_range: "0 \<le> clamp n \<and> clamp n \<le> 255"
  by (simp add: clamp_def Let_def)

lemma normalized_value_range: "0 \<le> normalized_value c gm \<and> normalized_value c gm \<le> 255"
  unfolding normalized_value_def by (rule clamp_range)

lemma scaled_Some:
  "sint gm \<noteq> 0 \<Longrightarrow> \<exists>n. scaled c gm = Some n \<and> clamp n = normalized_value c gm"
  by (simp add: scaled_def cdiv_def normalized_value_def)

lemma bump_length: "length (bump n h) = length h"
  by (simp add: bump_def)

lemma fold_bump_length: "length (fold (\<lambda>c. bump (f c)) cs h) = length h"
  by (induction cs arbitrary: h) (simp_all add: bump_length)

lemma normalize_pass_Some:
  assumes "sint gm \<noteq> 0" "length hist = 256"
  shows "normalize_pass cs gm hist =
           Some (map (\<lambda>c. word_of_int (normalized_value c gm)) cs,
                 fold (\<lambda>c. bump (normalized_value c gm)) cs hist)"
  using assms(2)
proof (induction cs arbitrary: hist)
  case Nil
  then show ?case by simp
next
  case (Cons c cs)
  obtain n where n: "scaled c gm = Some n" "clamp n = normalized_value c gm"
    using scaled_Some[OF assms(1)] by blast
  have r: "0 \<le> normalized_value c gm" "normalized_value c gm < 256"
    using normalized_value_range[of c gm] by simp_all
  have l: "load hist (normalized_value c gm) = Some (hist ! nat (normalized_value c gm))"
    using r Cons.prems by (simp add: load_def)
  have s: "store hist (normalized_value c gm) (hist ! nat (normalized_value c gm) + 1)
             = Some (bump (normalized_value c gm) hist)"
    using r Cons.prems by (simp add: store_def bump_def)
  have "length (bump (normalized_value c gm) hist) = 256"
    using Cons.prems by (simp add: bump_length)
  from Cons.IH[OF this] show ?case
    by (simp add: n l s)
qed

lemma fold_bump_nth:
  assumes "k < length h" "\<forall>c\<in>set cs. 0 \<le> f c"
  shows "fold (\<lambda>c. bump (f c)) cs h ! k = h ! k + int (length (filter (\<lambda>c. f c = int k) cs))"
  using assms
proof (induction cs arbitrary: h)
  case Nil
  then show ?case by simp
next
  case (Cons c cs)
  have nn: "0 \<le> f c" using Cons.prems by simp
  have eq: "nat (f c) = k \<longleftrightarrow> f c = int k" using nn by auto
  have "fold (\<lambda>c. bump (f c)) (c # cs) h ! k
        = bump (f c) h ! k + int (length (filter (\<lambda>c. f c = int k) cs))"
    using Cons.IH[of "bump (f c) h"] Cons.prems by (simp add: bump_length)
  also have "bump (f c) h ! k = (if f c = int k then h ! k + 1 else h ! k)"
    using Cons.prems(1) eq by (auto simp: bump_def nth_list_update)
  finally show ?case by simp
qed

lemma uint_normalized_byte:
  "uint (word_of_int (normalized_value c gm) :: u8) = normalized_value c gm"
proof -
  have "0 \<le> normalized_value c gm" "normalized_value c gm < 2 ^ 8"
    using normalized_value_range[of c gm] by simp_all
  then show ?thesis
    by (simp add: uint_word_of_int)
qed

text \<open>Every bin of the histogram counts the pixels that have its value.\<close>

lemma histogram_counts:
  assumes "normalize_pass cs gm (replicate 256 0) = Some (normalized, histogram)" "sint gm \<noteq> 0"
  shows "length normalized = length cs" "length histogram = 256"
    and "k < 256 \<Longrightarrow> histogram ! k = int (length (filter (\<lambda>p. uint p = int k) normalized))"
    and "normalized = map (\<lambda>c. word_of_int (normalized_value c gm)) cs"
proof -
  have eq: "normalized = map (\<lambda>c. word_of_int (normalized_value c gm)) cs"
           "histogram = fold (\<lambda>c. bump (normalized_value c gm)) cs (replicate 256 0)"
    using assms normalize_pass_Some[of gm "replicate 256 0" cs] by simp_all
  show "normalized = map (\<lambda>c. word_of_int (normalized_value c gm)) cs" by (rule eq)
  show "length normalized = length cs" by (simp add: eq)
  show "length histogram = 256" by (simp add: eq fold_bump_length)
  show "histogram ! k = int (length (filter (\<lambda>p. uint p = int k) normalized))" if "k < 256"
  proof -
    have "histogram ! k = int (length (filter (\<lambda>c. normalized_value c gm = int k) cs))"
      unfolding eq using that normalized_value_range
      by (subst fold_bump_nth) auto
    also have "\<dots> = int (length (filter (\<lambda>p. uint p = int k) normalized))"
      by (simp add: eq filter_map comp_def uint_normalized_byte)
    finally show ?thesis .
  qed
qed

lemma count_split:
  "length (filter (\<lambda>p. f p \<le> int (Suc t)) xs)
     = length (filter (\<lambda>p. f p \<le> int t) xs) + length (filter (\<lambda>p. f p = int (Suc t)) xs)"
  by (induction xs) auto

lemma running_sum_counts:
  assumes h: "\<And>k. k < 256 \<Longrightarrow> histogram ! k = int (length (filter (\<lambda>p. uint p = int k) normalized))"
      and len: "length histogram = 256"
  shows "t < 256 \<Longrightarrow> sum_list (take (Suc t) histogram) = count_le normalized (int t)"
proof (induction t)
  case 0
  have "take (Suc 0) histogram = [histogram ! 0]"
    using len by (simp add: take_Suc_conv_app_nth)
  moreover have "filter (\<lambda>p. uint p \<le> 0) normalized = filter (\<lambda>p. uint p = 0) normalized"
    by (rule filter_cong) (auto simp: order_antisym_conv)
  ultimately show ?case using h[of 0] by (simp add: count_le_def)
next
  case (Suc t)
  have "take (Suc (Suc t)) histogram = take (Suc t) histogram @ [histogram ! Suc t]"
    using len Suc.prems by (simp add: take_Suc_conv_app_nth)
  then have "sum_list (take (Suc (Suc t)) histogram)
               = count_le normalized (int t) + histogram ! Suc t"
    using Suc by simp
  also have "\<dots> = count_le normalized (int (Suc t))"
    using h[OF Suc.prems] count_split[of uint t normalized] by (simp add: count_le_def)
  finally show ?case .
qed

lemma combine_normalize_Some:
  "\<exists>normalized histogram. combine_normalize resp = Some (normalized, histogram)"
proof -
  have "sint (snd (combine_pass (fst resp) (snd resp) 1)) \<noteq> 0"
    using combine_pass_max_ge[of 1 "fst resp" "snd resp"] by simp
  then show ?thesis
    by (simp add: combine_normalize_def Let_def normalize_pass_Some)
qed

text \<open>What the combining and normalising passes return, in one statement.\<close>

lemma combine_normalize_props:
  assumes "combine_normalize resp = Some (normalized, histogram)"
  shows "length normalized = min (length (fst resp)) (length (snd resp))"
    and "length histogram = 256"
    and "\<And>t. 0 \<le> t \<Longrightarrow> t < 256 \<Longrightarrow> running_sum histogram t = count_le normalized t"
    and "\<And>i. i < length normalized \<Longrightarrow>
           normalized ! i = word_of_int (normalized_value
             (fst (combine_pass (fst resp) (snd resp) 1) ! i) (snd (combine_pass (fst resp) (snd resp) 1)))"
proof -
  let ?cg = "combine_pass (fst resp) (snd resp) 1"
  have gm: "sint (snd ?cg) \<noteq> 0"
    using combine_pass_max_ge[of 1 "fst resp" "snd resp"] by simp
  have np: "normalize_pass (fst ?cg) (snd ?cg) (replicate 256 0) = Some (normalized, histogram)"
    using assms by (simp add: combine_normalize_def Let_def)
  note hc = histogram_counts[OF np gm]
  show "length normalized = min (length (fst resp)) (length (snd resp))"
    using hc(1) by (simp add: combine_pass_length)
  show "length histogram = 256" by (rule hc(2))
  show "running_sum histogram t = count_le normalized t" if "0 \<le> t" "t < 256" for t
  proof -
    have "nat t < 256" using that by simp
    from running_sum_counts[OF hc(3) hc(2) this] that show ?thesis
      by (simp add: running_sum_def)
  qed
  show "normalized ! i = word_of_int (normalized_value (fst ?cg ! i) (snd ?cg))"
    if "i < length normalized" for i
    using that hc(1) by (simp add: hc(4))
qed

text \<open>
  C8. Whatever the two accumulator buffers hold, the global maximum that the combining pass
  returns is at least 1, so the divisor of the normalisation is never zero: the division
  \<open>combined * 255 / global_max\<close> is defined for every value of \<open>combined\<close>, and the combining
  and normalising passes return. This covers the case where both gradient channels are
  entirely zero.
\<close>

theorem global_max_at_least_one:
  "1 \<le> sint (snd (combine_pass h_response v_response 1))
   \<and> cdiv (sint combined * 255) (sint (snd (combine_pass h_response v_response 1))) \<noteq> None
   \<and> combine_normalize (h_response, v_response) \<noteq> None"
proof -
  have "1 \<le> sint (snd (combine_pass h_response v_response 1))"
    using combine_pass_max_ge[of 1 h_response v_response] by simp
  moreover have "combine_normalize (h_response, v_response) \<noteq> None"
    using combine_normalize_Some[of "(h_response, v_response)"] by auto
  ultimately show ?thesis by (simp add: cdiv_def)
qed

theorem global_max_at_least_one_witness:
  "snd (combine_pass [0, 0, 0] [0, 0, 0] 1) = 1
   \<and> 1 \<le> sint (snd (combine_pass [0, 0, 0] [0, 0, 0] 1))
   \<and> cdiv (sint (0 :: i32) * 255) (sint (snd (combine_pass [0, 0, 0] [0, 0, 0] 1))) \<noteq> None
   \<and> combine_normalize ([0, 0, 0], [0, 0, 0]) \<noteq> None"
  using global_max_at_least_one[of "[0, 0, 0]" "[0, 0, 0]" 0] by simp

section \<open>Threshold selection\<close>

lemma threshold_walk_Some:
  "threshold_walk hs i c t = Some j \<Longrightarrow>
     i \<le> j \<and> j < i + int (length hs)
     \<and> t \<le> c + sum_list (take (Suc (nat (j - i))) hs)
     \<and> (\<forall>k<nat (j - i). c + sum_list (take (Suc k) hs) < t)"
proof (induction hs arbitrary: i c)
  case Nil
  then show ?case by simp
next
  case (Cons h hs)
  show ?case
  proof (cases "t \<le> c + h")
    case True
    with Cons.prems show ?thesis by simp
  next
    case False
    with Cons.prems have "threshold_walk hs (i + 1) (c + h) t = Some j" by simp
    from Cons.IH[OF this] have ih: "i + 1 \<le> j" "j < i + 1 + int (length hs)"
        "t \<le> c + h + sum_list (take (Suc (nat (j - (i + 1)))) hs)"
        "\<forall>k<nat (j - (i + 1)). c + h + sum_list (take (Suc k) hs) < t"
      by simp_all
    have n: "nat (j - i) = Suc (nat (j - (i + 1)))" using ih(1) by simp
    have "c + sum_list (take (Suc k) (h # hs)) < t" if "k < nat (j - i)" for k
    proof (cases k)
      case 0
      then show ?thesis using False by simp
    next
      case (Suc k')
      then have "k' < nat (j - (i + 1))" using that n by simp
      with ih(4) Suc show ?thesis by (simp add: add.assoc)
    qed
    with ih n show ?thesis by (simp add: add.assoc)
  qed
qed

lemma threshold_walk_None:
  "threshold_walk hs i c t = None \<longleftrightarrow> (\<forall>k<length hs. c + sum_list (take (Suc k) hs) < t)"
proof (induction hs arbitrary: i c)
  case Nil
  then show ?case by simp
next
  case (Cons h hs)
  show ?case
  proof (cases "t \<le> c + h")
    case True
    then have "\<not> (c + sum_list (take (Suc 0) (h # hs)) < t)" by simp
    then have "\<not> (\<forall>k<length (h # hs). c + sum_list (take (Suc k) (h # hs)) < t)" by blast
    with True show ?thesis by simp
  next
    case False
    have "(\<forall>k<length (h # hs). c + sum_list (take (Suc k) (h # hs)) < t)
          \<longleftrightarrow> (\<forall>k<length hs. c + h + sum_list (take (Suc k) hs) < t)"
    proof
      assume a: "\<forall>k<length (h # hs). c + sum_list (take (Suc k) (h # hs)) < t"
      show "\<forall>k<length hs. c + h + sum_list (take (Suc k) hs) < t"
      proof (intro allI impI)
        fix k assume "k < length hs"
        then have "Suc k < length (h # hs)" by simp
        from a[rule_format, OF this] show "c + h + sum_list (take (Suc k) hs) < t"
          by (simp add: add.assoc)
      qed
    next
      assume a: "\<forall>k<length hs. c + h + sum_list (take (Suc k) hs) < t"
      show "\<forall>k<length (h # hs). c + sum_list (take (Suc k) (h # hs)) < t"
      proof (intro allI impI)
        fix k assume k: "k < length (h # hs)"
        show "c + sum_list (take (Suc k) (h # hs)) < t"
        proof (cases k)
          case 0
          then show ?thesis using False by simp
        next
          case (Suc k')
          then have "k' < length hs" using k by simp
          from a[rule_format, OF this] Suc show ?thesis by (simp add: add.assoc)
        qed
      qed
    qed
    with False Cons.IH[of "i + 1" "c + h"] show ?thesis by simp
  qed
qed

text \<open>The walk from bin 0 with an empty running sum, in terms of \<open>running_sum\<close>.\<close>

lemma select_threshold_cases:
  assumes len: "length histogram = 256"
  shows "(\<exists>i. threshold_walk histogram 0 0 target = Some i \<and> select_threshold histogram target = i
            \<and> 0 \<le> i \<and> i \<le> 255 \<and> target \<le> running_sum histogram i
            \<and> (\<forall>j. 0 \<le> j \<and> j < i \<longrightarrow> running_sum histogram j < target))
       \<or> (threshold_walk histogram 0 0 target = None \<and> select_threshold histogram target = 255
            \<and> (\<forall>j. 0 \<le> j \<and> j \<le> 255 \<longrightarrow> running_sum histogram j < target))"
proof (cases "threshold_walk histogram 0 0 target")
  case None
  then have "\<forall>k<256. sum_list (take (Suc k) histogram) < target"
    using threshold_walk_None[of histogram 0 0 target] len by simp
  then have "\<forall>j. 0 \<le> j \<and> j \<le> 255 \<longrightarrow> running_sum histogram j < target"
    by (auto simp: running_sum_def)
  with None show ?thesis by (simp add: select_threshold_def)
next
  case (Some i)
  from threshold_walk_Some[OF this] len have i: "0 \<le> i" "i \<le> 255"
    and r: "target \<le> sum_list (take (Suc (nat i)) histogram)"
    and b: "\<forall>k<nat i. sum_list (take (Suc k) histogram) < target"
    by simp_all
  have "running_sum histogram j < target" if "0 \<le> j" "j < i" for j
    using b[rule_format, of "nat j"] that by (simp add: running_sum_def)
  with Some i r show ?thesis by (simp add: select_threshold_def running_sum_def)
qed

lemma select_threshold_range:
  "length histogram = 256 \<Longrightarrow> 0 \<le> select_threshold histogram target \<and> select_threshold histogram target \<le> 255"
  using select_threshold_cases[of histogram target] by auto

text \<open>
  C3, as amended. For the normalised image and the histogram that the normalising pass
  returns and any target, the selected threshold is the first bin, walking the bins 0 to 255
  upwards, whose running sum of counts reaches the target; the running sum after a bin is
  the number of pixels whose normalised value is at most that bin, so the threshold is the
  smallest level \<open>i\<close> such that at least \<open>target\<close> pixels have a value at most \<open>i\<close>. When no
  bin reaches the target the threshold is 255. The target is a truncated product, so the
  share of the pixels at or below the threshold can stay under the percentile.
\<close>

theorem threshold_is_first_bin_reaching_target:
  assumes "combine_normalize resp = Some (normalized, histogram)"
  shows "(\<exists>i. threshold_walk histogram 0 0 target = Some i \<and> select_threshold histogram target = i
            \<and> 0 \<le> i \<and> i \<le> 255
            \<and> target \<le> running_sum histogram i
            \<and> (\<forall>j. 0 \<le> j \<and> j < i \<longrightarrow> running_sum histogram j < target)
            \<and> target \<le> count_le normalized i
            \<and> (\<forall>j. 0 \<le> j \<and> j < i \<longrightarrow> count_le normalized j < target))
       \<or> (threshold_walk histogram 0 0 target = None \<and> select_threshold histogram target = 255
            \<and> (\<forall>j. 0 \<le> j \<and> j \<le> 255 \<longrightarrow> running_sum histogram j < target)
            \<and> (\<forall>j. 0 \<le> j \<and> j \<le> 255 \<longrightarrow> count_le normalized j < target))"
proof -
  note p = combine_normalize_props[OF assms]
  have rc: "running_sum histogram t = count_le normalized t" if "0 \<le> t" "t \<le> 255" for t
    using p(3)[of t] that by simp
  from select_threshold_cases[OF p(2), of target] show ?thesis
  proof
    assume "\<exists>i. threshold_walk histogram 0 0 target = Some i \<and> select_threshold histogram target = i
            \<and> 0 \<le> i \<and> i \<le> 255 \<and> target \<le> running_sum histogram i
            \<and> (\<forall>j. 0 \<le> j \<and> j < i \<longrightarrow> running_sum histogram j < target)"
    then obtain i where i: "threshold_walk histogram 0 0 target = Some i"
        "select_threshold histogram target = i" "0 \<le> i" "i \<le> 255"
        "target \<le> running_sum histogram i"
        "\<forall>j. 0 \<le> j \<and> j < i \<longrightarrow> running_sum histogram j < target"
      by blast
    have "target \<le> count_le normalized i" using i rc[of i] by simp
    moreover have "\<forall>j. 0 \<le> j \<and> j < i \<longrightarrow> count_le normalized j < target"
      using i rc by force
    ultimately show ?thesis using i by blast
  next
    assume n: "threshold_walk histogram 0 0 target = None \<and> select_threshold histogram target = 255
            \<and> (\<forall>j. 0 \<le> j \<and> j \<le> 255 \<longrightarrow> running_sum histogram j < target)"
    then have "\<forall>j. 0 \<le> j \<and> j \<le> 255 \<longrightarrow> count_le normalized j < target"
      using rc by force
    with n show ?thesis by blast
  qed
qed

theorem threshold_is_first_bin_reaching_target_witness:
  "combine_normalize ([0, 0, 0, 0, 100, 0, 0, 0, 0], [0, 0, 0, 0, 50, 0, 0, 0, 0])
     = Some ([0, 0, 0, 0, 255, 0, 0, 0, 0], 8 # replicate 254 0 @ [1])
   \<and> threshold_walk (8 # replicate 254 0 @ [1]) 0 0 8 = Some 0
   \<and> select_threshold (8 # replicate 254 0 @ [1]) 8 = 0
   \<and> 8 \<le> running_sum (8 # replicate 254 0 @ [1]) 0
   \<and> 8 \<le> count_le [0, 0, 0, 0, 255, 0, 0, 0, 0] 0"
proof -
  have c: "combine_normalize ([0, 0, 0, 0, 100, 0, 0, 0, 0], [0, 0, 0, 0, 50, 0, 0, 0, 0])
     = Some ([0, 0, 0, 0, 255, 0, 0, 0, 0], 8 # replicate 254 0 @ [1])"
    by code_simp
  have w: "threshold_walk (8 # replicate 254 0 @ [1]) 0 0 8 = Some 0"
    by simp
  from threshold_is_first_bin_reaching_target[OF c, of 8] w c show ?thesis
    by auto
qed

text \<open>
  In Scenario B the selected threshold is 0 and 8 of the 9 pixels are at or below it, fewer
  than the fraction 0.9 of the 9 pixels; no pixel is below it.
\<close>

theorem threshold_below_percentile_counterexample:
  "accumulation_stage scenario_B 3 3 1 1 1 1
     = Some ([0, 0, 0, 0, 100, 0, 0, 0, 0], [0, 0, 0, 0, 50, 0, 0, 0, 0])
   \<and> combine_normalize ([0, 0, 0, 0, 100, 0, 0, 0, 0], [0, 0, 0, 0, 50, 0, 0, 0, 0])
     = Some ([0, 0, 0, 0, 255, 0, 0, 0, 0], 8 # replicate 254 0 @ [1])
   \<and> compute_target (3 * 3) percentile_09 = Some 8
   \<and> select_threshold (8 # replicate 254 0 @ [1]) 8 = 0
   \<and> count_le [0, 0, 0, 0, 255, 0, 0, 0, 0] 0 = 8
   \<and> of_int (count_le [0, 0, 0, 0, 255, 0, 0, 0, 0] 0) < f32_val percentile_09 * 9"
  by code_simp

section \<open>Single-precision rounding and the target count\<close>

lemma excess_bits_small: "n < 2 ^ 24 \<Longrightarrow> excess_bits n = 0"
  by (subst excess_bits.simps) simp

lemma int_le_div: "0 < (m::int) \<Longrightarrow> c * m \<le> b \<Longrightarrow> c \<le> b div m"
  using zdiv_mono1 by fastforce

lemma int_div_less:
  assumes "0 < (m::int)" "a < c * m"
  shows "a div m < c"
proof (rule ccontr)
  assume "\<not> a div m < c"
  then have "c * m \<le> (a div m) * m" using assms(1) by (simp add: mult_right_mono)
  also have "\<dots> \<le> a"
    using assms(1) by (metis div_mult_mod_eq le_add_same_cancel1 pos_mod_sign)
  finally show False using assms(2) by simp
qed

lemma excess_bits_upper: "n < 2 ^ 24 * 2 ^ excess_bits n"
proof (induction n rule: excess_bits.induct)
  case (1 n)
  show ?case
  proof (cases "n < 2 ^ 24")
    case True
    then show ?thesis by (simp add: excess_bits_small)
  next
    case False
    then have e: "excess_bits n = Suc (excess_bits (n div 2))"
      by (subst excess_bits.simps) simp
    have "n div 2 < 2 ^ 24 * 2 ^ excess_bits (n div 2)" using "1.IH"[OF False] .
    then have "n < 2 * (2 ^ 24 * 2 ^ excess_bits (n div 2))" by linarith
    then show ?thesis by (simp add: e)
  qed
qed

lemma excess_bits_lower: "0 < excess_bits n \<Longrightarrow> 2 ^ 23 * 2 ^ excess_bits n \<le> n"
proof (induction n rule: excess_bits.induct)
  case (1 n)
  show ?case
  proof (cases "n < 2 ^ 24")
    case True
    with "1.prems" show ?thesis by (simp add: excess_bits_small)
  next
    case False
    then have e: "excess_bits n = Suc (excess_bits (n div 2))"
      by (subst excess_bits.simps) simp
    show ?thesis
    proof (cases "0 < excess_bits (n div 2)")
      case True
      from "1.IH"[OF False True] have "2 * (2 ^ 23 * 2 ^ excess_bits (n div 2)) \<le> n" by linarith
      then show ?thesis by (simp add: e)
    next
      case False
      then show ?thesis using \<open>\<not> n < 2 ^ 24\<close> by (simp add: e)
    qed
  qed
qed

lemma excess_bits_mono:
  assumes "a \<le> b"
  shows "excess_bits a \<le> excess_bits b"
proof (rule ccontr)
  assume "\<not> excess_bits a \<le> excess_bits b"
  then have lt: "Suc (excess_bits b) \<le> excess_bits a" by simp
  then have "2 ^ 23 * 2 ^ excess_bits a \<le> a" by (intro excess_bits_lower) simp
  moreover have "b < 2 ^ 24 * 2 ^ excess_bits b" by (rule excess_bits_upper)
  moreover have "(2::int) ^ 24 * 2 ^ excess_bits b = 2 ^ 23 * 2 ^ Suc (excess_bits b)" by simp
  moreover have "(2::int) ^ 23 * 2 ^ Suc (excess_bits b) \<le> 2 ^ 23 * 2 ^ excess_bits a"
    using lt by (intro mult_left_mono power_increasing) simp_all
  ultimately show False using assms by linarith
qed

lemma round_quotient_bounds:
  "a div 2 ^ d \<le> round_quotient a d \<and> round_quotient a d \<le> a div 2 ^ d + 1"
  by (simp add: round_quotient_def)

lemma round_quotient_mono:
  assumes "a \<le> b"
  shows "round_quotient a d \<le> round_quotient b d"
proof -
  have q: "a div 2 ^ d \<le> b div 2 ^ d" using assms by (simp add: zdiv_mono1)
  show ?thesis
  proof (cases "a div 2 ^ d = b div 2 ^ d")
    case False
    with q have "a div 2 ^ d + 1 \<le> b div 2 ^ d" by simp
    then show ?thesis
      using round_quotient_bounds[of a d] round_quotient_bounds[of b d] by linarith
  next
    case True
    have "a = 2 ^ d * (a div 2 ^ d) + a mod 2 ^ d" "b = 2 ^ d * (b div 2 ^ d) + b mod 2 ^ d"
      by simp_all
    with True assms have "a mod 2 ^ d \<le> b mod 2 ^ d" by (metis add_le_cancel_left)
    with True show ?thesis by (auto simp: round_quotient_def)
  qed
qed

lemma round_quotient_zero_bits: "round_quotient a 0 = a"
  by (simp add: round_quotient_def)

lemma rnd_small: "a < 2 ^ 24 \<Longrightarrow> rnd a = a"
  by (simp add: rnd_def excess_bits_small round_quotient_zero_bits)

lemma rnd_nonneg: "0 \<le> a \<Longrightarrow> 0 \<le> rnd a"
proof -
  assume "0 \<le> a"
  then have "0 \<le> a div 2 ^ excess_bits a" by (simp add: pos_imp_zdiv_nonneg_iff)
  then have "0 \<le> round_quotient a (excess_bits a)"
    using round_quotient_bounds[of a "excess_bits a"] by linarith
  then show ?thesis by (simp add: rnd_def)
qed

lemma rnd_mono:
  assumes "a \<le> b"
  shows "rnd a \<le> rnd b"
proof (cases "excess_bits a = excess_bits b")
  case True
  then show ?thesis
    using round_quotient_mono[OF assms, of "excess_bits b"]
    by (simp add: rnd_def mult_right_mono)
next
  case False
  with excess_bits_mono[OF assms] have lt: "excess_bits a < excess_bits b" by simp
  let ?da = "excess_bits a" and ?db = "excess_bits b"
  have "a < 2 ^ 24 * 2 ^ ?da" by (rule excess_bits_upper)
  then have "a div 2 ^ ?da < 2 ^ 24" by (intro int_div_less) simp_all
  then have "round_quotient a ?da \<le> 2 ^ 24"
    using round_quotient_bounds[of a ?da] by linarith
  then have ua: "rnd a \<le> 2 ^ 24 * 2 ^ ?da" by (simp add: rnd_def mult_right_mono)
  have "2 ^ 23 * 2 ^ ?db \<le> b" using excess_bits_lower[of b] lt by simp
  then have "2 ^ 23 \<le> b div 2 ^ ?db" by (intro int_le_div) simp_all
  then have "2 ^ 23 \<le> round_quotient b ?db"
    using round_quotient_bounds[of b ?db] by linarith
  then have lb: "2 ^ 23 * 2 ^ ?db \<le> rnd b" by (simp add: rnd_def mult_right_mono)
  have "(2::int) ^ 24 * 2 ^ ?da = 2 ^ 23 * 2 ^ Suc ?da" by simp
  also have "\<dots> \<le> 2 ^ 23 * 2 ^ ?db"
    using lt by (intro mult_left_mono power_increasing) simp_all
  finally show ?thesis using ua lb by linarith
qed

lemma rnd_double: "rnd (2 * a) = 2 * rnd a"
proof (cases "2 * a < 2 ^ 24")
  case True
  then have "a < 2 ^ 24 \<or> a < 0" by linarith
  then have "a < 2 ^ 24" by auto
  with True show ?thesis by (simp add: rnd_small)
next
  case False
  then have e: "excess_bits (2 * a) = Suc (excess_bits a)"
    by (subst excess_bits.simps) simp
  let ?d = "excess_bits a"
  have q: "(2 * a) div 2 ^ Suc ?d = a div 2 ^ ?d" by simp
  have r: "(2 * a) mod 2 ^ Suc ?d = 2 * (a mod 2 ^ ?d)" by simp
  have "round_quotient (2 * a) (Suc ?d) = round_quotient a ?d"
    unfolding round_quotient_def q r by simp
  then show ?thesis by (simp add: rnd_def e)
qed

lemma rnd_scale: "rnd (a * 2 ^ k) = rnd a * 2 ^ k"
proof (induction k)
  case 0
  then show ?case by simp
next
  case (Suc k)
  have "rnd (a * 2 ^ Suc k) = rnd (2 * (a * 2 ^ k))" by (simp add: mult.commute mult.left_commute)
  also have "\<dots> = 2 * (rnd a * 2 ^ k)" by (simp add: rnd_double Suc)
  finally show ?case by simp
qed

lemma rnd_upto_24: "a \<le> 2 ^ 24 \<Longrightarrow> rnd a = a"
proof -
  assume a: "a \<le> 2 ^ 24"
  show ?thesis
  proof (cases "a = 2 ^ 24")
    case True
    have "rnd (2 ^ 23 * 2 ^ 1) = rnd (2 ^ 23) * 2 ^ 1" by (rule rnd_scale)
    then show ?thesis using True by (simp add: rnd_small)
  next
    case False
    with a show ?thesis by (simp add: rnd_small)
  qed
qed

lemma f32_val_powi: "f32_val f = of_int (mantissa f) * 2 powi exponent f"
proof (cases "0 \<le> exponent f")
  case True
  then show ?thesis by (simp add: f32_val_def power_int_def)
next
  case False
  have "inverse (2::rat) ^ nat (- exponent f) = 1 / 2 ^ nat (- exponent f)"
    by (simp add: power_one_over inverse_eq_divide)
  with False show ?thesis by (simp add: f32_val_def power_int_def)
qed

lemma powi_nonneg_exponent: "0 \<le> e \<Longrightarrow> (2::rat) powi e = 2 ^ nat e"
  by (simp add: power_int_def)

lemma sgn_rnd_abs: "0 \<le> x \<Longrightarrow> sgn x * rnd \<bar>x\<bar> = rnd x"
proof (cases "x = 0")
  case True
  have "rnd 0 = 0" by (simp add: rnd_small)
  with True show ?thesis by simp
next
  case False
  assume "0 \<le> x"
  with False show ?thesis by (simp add: sgn_if)
qed

lemma round24_eq:
  "round24 m e = Float32 (sgn m * round_quotient \<bar>m\<bar> (excess_bits \<bar>m\<bar>)) (e + int (excess_bits \<bar>m\<bar>))"
  by (simp add: round24_def round_quotient_def Let_def)

lemma round_quotient_le: "round_quotient a (excess_bits a) \<le> 2 ^ 24"
proof -
  have "a < 2 ^ 24 * 2 ^ excess_bits a" by (rule excess_bits_upper)
  then have "a div 2 ^ excess_bits a < 2 ^ 24" by (intro int_div_less) simp_all
  then show ?thesis using round_quotient_bounds[of a "excess_bits a"] by linarith
qed

lemma round_quotient_nonneg: "0 \<le> a \<Longrightarrow> 0 \<le> round_quotient a d"
proof -
  assume "0 \<le> a"
  then have "0 \<le> a div 2 ^ d" by (simp add: pos_imp_zdiv_nonneg_iff)
  then show ?thesis using round_quotient_bounds[of a d] by linarith
qed

lemma round24_val: "f32_val (round24 m e) = of_int (sgn m * rnd \<bar>m\<bar>) * 2 powi e"
proof -
  have "(2::rat) powi (e + int (excess_bits \<bar>m\<bar>)) = 2 powi e * 2 ^ excess_bits \<bar>m\<bar>"
    by (simp add: power_int_add)
  then show ?thesis
    by (simp add: f32_val_powi round24_eq rnd_def)
qed

lemma rnd_idem: "0 \<le> a \<Longrightarrow> rnd (rnd a) = rnd a"
proof -
  assume "0 \<le> a"
  have "rnd (rnd a) = rnd (round_quotient a (excess_bits a)) * 2 ^ excess_bits a"
    unfolding rnd_def[of a] by (rule rnd_scale)
  also have "rnd (round_quotient a (excess_bits a)) = round_quotient a (excess_bits a)"
    by (rule rnd_upto_24) (rule round_quotient_le)
  finally show ?thesis by (simp add: rnd_def)
qed

lemma f32_of_int_val: "0 \<le> n \<Longrightarrow> f32_val (f32_of_int n) = of_int (rnd n)"
  unfolding f32_of_int_def round24_val by (cases "n = 0") (simp_all add: rnd_small)

lemma f32_of_int_mantissa: "0 \<le> n \<Longrightarrow> 0 \<le> mantissa (f32_of_int n)"
  by (simp add: f32_of_int_def round24_eq round_quotient_nonneg sgn_if)

text \<open>The value of the single-precision product, for a percentile that is not negative.\<close>

lemma product_val:
  assumes n: "0 \<le> n" and m: "0 \<le> mantissa p"
  shows "f32_val (f32_mul (f32_of_int n) p)
           = of_int (rnd (mantissa (f32_of_int n) * mantissa p))
               * 2 powi (exponent (f32_of_int n) + exponent p)"
proof -
  let ?x = "mantissa (f32_of_int n) * mantissa p"
  have "0 \<le> ?x" using f32_of_int_mantissa[OF n] m by simp
  then have "sgn ?x * rnd \<bar>?x\<bar> = rnd ?x" by (rule sgn_rnd_abs)
  then show ?thesis
    unfolding f32_mul_def round24_val by (simp only:)
qed

lemma f32_val_sign: "0 \<le> f32_val p \<longleftrightarrow> 0 \<le> mantissa p"
proof -
  have "(0::rat) < 2 powi exponent p" by simp
  then have "\<not> (2::rat) powi exponent p \<le> 0" by (simp only: not_le)
  then show ?thesis
    unfolding f32_val_powi by (simp add: zero_le_mult_iff)
qed

lemma powi_split:
  "(2::rat) powi e = 2 ^ nat (e - min e e') * 2 powi min e e'"
proof -
  have "(2::rat) powi e = 2 powi ((e - min e e') + min e e')" by simp
  also have "\<dots> = 2 powi (e - min e e') * 2 powi min e e'"
    by (rule power_int_add) simp
  also have "(2::rat) powi (e - min e e') = 2 ^ nat (e - min e e')"
    by (rule powi_nonneg_exponent) simp
  finally show ?thesis .
qed

lemma product_val_mono:
  assumes n: "0 \<le> n" and p1: "0 \<le> f32_val p1" and le: "f32_val p1 \<le> f32_val p2"
  shows "f32_val (f32_mul (f32_of_int n) p1) \<le> f32_val (f32_mul (f32_of_int n) p2)"
proof -
  let ?q = "mantissa (f32_of_int n)" and ?d = "exponent (f32_of_int n)"
  let ?m1 = "mantissa p1" and ?e1 = "exponent p1" and ?m2 = "mantissa p2" and ?e2 = "exponent p2"
  let ?e0 = "min ?e1 ?e2"
  let ?k1 = "nat (?e1 - ?e0)" and ?k2 = "nat (?e2 - ?e0)"
  have m1: "0 \<le> ?m1" using p1 by (simp add: f32_val_sign)
  have m2: "0 \<le> ?m2" using p1 le f32_val_sign[of p2] by simp
  have q: "0 \<le> ?q" by (rule f32_of_int_mantissa[OF n])
  have s1: "(2::rat) powi ?e1 = 2 ^ ?k1 * 2 powi ?e0" by (rule powi_split)
  have s2: "(2::rat) powi ?e2 = 2 ^ ?k2 * 2 powi ?e0"
    using powi_split[of ?e2 ?e1] by (simp add: min.commute)
  have pos: "(0::rat) < 2 powi ?e0" by simp
  have "of_int (?m1 * 2 ^ ?k1) * (2::rat) powi ?e0 \<le> of_int (?m2 * 2 ^ ?k2) * 2 powi ?e0"
    using le unfolding f32_val_powi by (simp add: s1 s2 mult.assoc)
  then have "(of_int (?m1 * 2 ^ ?k1) :: rat) \<le> of_int (?m2 * 2 ^ ?k2)"
    using pos by (simp only: mult_le_cancel_right_pos)
  then have i: "?m1 * 2 ^ ?k1 \<le> ?m2 * 2 ^ ?k2" by (simp only: of_int_le_iff)
  have sc: "(2::rat) powi (?d + e) = 2 ^ nat (e - ?e0) * 2 powi (?d + ?e0)" if "?e0 \<le> e" for e
  proof -
    have "?d + e = (e - ?e0) + (?d + ?e0)" by simp
    then have "(2::rat) powi (?d + e) = 2 powi ((e - ?e0) + (?d + ?e0))" by (simp only:)
    also have "\<dots> = 2 powi (e - ?e0) * 2 powi (?d + ?e0)"
      by (rule power_int_add) simp
    also have "(2::rat) powi (e - ?e0) = 2 ^ nat (e - ?e0)"
      using that by (intro powi_nonneg_exponent) simp
    finally show ?thesis .
  qed
  have v: "f32_val (f32_mul (f32_of_int n) p)
             = of_int (rnd (?q * (mantissa p * 2 ^ nat (exponent p - ?e0)))) * 2 powi (?d + ?e0)"
    if "0 \<le> mantissa p" "?e0 \<le> exponent p" for p
  proof -
    have "rnd (?q * (mantissa p * 2 ^ nat (exponent p - ?e0)))
            = rnd (?q * mantissa p) * 2 ^ nat (exponent p - ?e0)"
      using rnd_scale[of "?q * mantissa p" "nat (exponent p - ?e0)"] by (simp add: mult.assoc)
    then show ?thesis
      unfolding product_val[OF n that(1)] sc[OF that(2)] by (simp add: mult.assoc)
  qed
  have "rnd (?q * (?m1 * 2 ^ ?k1)) \<le> rnd (?q * (?m2 * 2 ^ ?k2))"
    using i q by (intro rnd_mono mult_left_mono)
  then have "(of_int (rnd (?q * (?m1 * 2 ^ ?k1))) :: rat) * 2 powi (?d + ?e0)
               \<le> of_int (rnd (?q * (?m2 * 2 ^ ?k2))) * 2 powi (?d + ?e0)"
    by (intro mult_right_mono) simp_all
  then show ?thesis
    using v[OF m1] v[OF m2] by simp
qed

lemma product_val_nonneg:
  assumes "0 \<le> n" "0 \<le> f32_val p"
  shows "0 \<le> f32_val (f32_mul (f32_of_int n) p)"
proof -
  have "0 \<le> mantissa (f32_of_int n) * mantissa p"
    using f32_of_int_mantissa[OF assms(1)] assms(2) by (simp add: f32_val_sign)
  then have "0 \<le> rnd (mantissa (f32_of_int n) * mantissa p)" by (rule rnd_nonneg)
  then show ?thesis
    using assms by (simp add: product_val f32_val_sign)
qed

lemma product_val_one:
  assumes "0 \<le> n"
  shows "f32_val (f32_mul (f32_of_int n) (Float32 1 0)) = of_int (rnd n)"
proof -
  have "f32_val (f32_mul (f32_of_int n) (Float32 1 0))
          = of_int (rnd (mantissa (f32_of_int n))) * 2 powi exponent (f32_of_int n)"
    using product_val[OF assms, of "Float32 1 0"] by simp
  also have "rnd (mantissa (f32_of_int n)) = mantissa (f32_of_int n)"
    using assms round_quotient_le[of n]
    by (intro rnd_upto_24) (simp add: f32_of_int_def round24_eq sgn_if)
  also have "of_int (mantissa (f32_of_int n)) * 2 powi exponent (f32_of_int n) = f32_val (f32_of_int n)"
    by (simp add: f32_val_powi)
  finally show ?thesis by (simp add: f32_of_int_val[OF assms])
qed

text \<open>
  With a percentile in \<open>[0, 1]\<close> the product stays at or below every number \<open>c * 2 ^ j\<close>
  with \<open>c \<le> 2 ^ 24\<close>, a number that single precision represents, that the pixel count does
  not exceed.
\<close>

lemma product_val_le:
  assumes n: "0 \<le> n" and p: "0 \<le> f32_val p" "f32_val p \<le> 1"
      and M: "n \<le> c * 2 ^ j" "c \<le> 2 ^ 24"
  shows "f32_val (f32_mul (f32_of_int n) p) \<le> of_int (c * 2 ^ j)"
proof -
  have "f32_val p \<le> f32_val (Float32 1 0)" using p by (simp add: f32_val_def)
  from product_val_mono[OF n p(1) this]
  have "f32_val (f32_mul (f32_of_int n) p) \<le> of_int (rnd n)"
    by (simp add: product_val_one[OF n])
  also have "rnd n \<le> rnd (c * 2 ^ j)" by (rule rnd_mono[OF M(1)])
  also have "rnd (c * 2 ^ j) = c * 2 ^ j" by (simp add: rnd_scale rnd_upto_24[OF M(2)])
  finally show ?thesis by simp
qed

lemma int_of_f32_floor:
  assumes "0 \<le> mantissa f"
  shows "int_of_f32 f = (if \<lfloor>f32_val f\<rfloor> < 2 ^ 31 then Some \<lfloor>f32_val f\<rfloor> else None)"
proof -
  let ?m = "mantissa f" and ?e = "exponent f"
  have t: "(if 0 \<le> ?e then ?m * 2 ^ nat ?e else sgn ?m * (\<bar>?m\<bar> div 2 ^ nat (- ?e))) = \<lfloor>f32_val f\<rfloor>"
  proof (cases "0 \<le> ?e")
    case True
    have "\<lfloor>(of_int (?m * 2 ^ nat ?e) :: rat)\<rfloor> = ?m * 2 ^ nat ?e" by (rule floor_of_int)
    with True show ?thesis by (simp add: f32_val_def)
  next
    case False
    have "\<lfloor>(of_int ?m :: rat) / of_int (2 ^ nat (- ?e))\<rfloor> = ?m div 2 ^ nat (- ?e)"
      by (rule floor_divide_of_int_eq)
    moreover have "sgn ?m * (\<bar>?m\<bar> div 2 ^ nat (- ?e)) = ?m div 2 ^ nat (- ?e)"
      using assms by (cases "?m = 0") (simp_all add: sgn_if)
    ultimately show ?thesis using False by (simp add: f32_val_def)
  qed
  have "0 \<le> \<lfloor>f32_val f\<rfloor>" using assms f32_val_sign[of f] by simp
  then show ?thesis
    unfolding int_of_f32_def Let_def t by simp
qed

lemma compute_target_floor:
  assumes "0 \<le> n" "0 \<le> f32_val p"
  shows "compute_target n p =
           (if \<lfloor>f32_val (f32_mul (f32_of_int n) p)\<rfloor> < 2 ^ 31
            then Some \<lfloor>f32_val (f32_mul (f32_of_int n) p)\<rfloor> else None)"
  unfolding compute_target_def
  using product_val_nonneg[OF assms] by (intro int_of_f32_floor) (simp add: f32_val_sign)

lemma compute_target_mono:
  assumes n: "0 \<le> n" and p1: "0 \<le> f32_val p1" and le: "f32_val p1 \<le> f32_val p2"
      and t2: "compute_target n p2 = Some t2"
  shows "\<exists>t1. compute_target n p1 = Some t1 \<and> 0 \<le> t1 \<and> t1 \<le> t2"
proof -
  have p2: "0 \<le> f32_val p2" using p1 le by simp
  let ?v1 = "f32_val (f32_mul (f32_of_int n) p1)" and ?v2 = "f32_val (f32_mul (f32_of_int n) p2)"
  have "\<lfloor>?v1\<rfloor> \<le> \<lfloor>?v2\<rfloor>" by (intro floor_mono product_val_mono[OF n p1 le])
  moreover have "\<lfloor>?v2\<rfloor> < 2 ^ 31 \<and> t2 = \<lfloor>?v2\<rfloor>"
    using t2 unfolding compute_target_floor[OF n p2] by (simp split: if_splits)
  moreover have "0 \<le> \<lfloor>?v1\<rfloor>" using product_val_nonneg[OF n p1] by simp
  ultimately have b: "\<lfloor>?v1\<rfloor> < 2 ^ 31" "0 \<le> \<lfloor>?v1\<rfloor>" "\<lfloor>?v1\<rfloor> \<le> t2" by linarith+
  have "compute_target n p1 = Some \<lfloor>?v1\<rfloor>"
    unfolding compute_target_floor[OF n p1] using b(1) by (simp only: if_True)
  with b show ?thesis by blast
qed

lemma compute_target_le:
  assumes n: "0 \<le> n" and p: "0 \<le> f32_val p" "f32_val p \<le> 1"
      and M: "n \<le> c * 2 ^ j" "c \<le> 2 ^ 24" "c * 2 ^ j < 2 ^ 31"
  shows "\<exists>t. compute_target n p = Some t \<and> 0 \<le> t \<and> t \<le> c * 2 ^ j"
proof -
  let ?v = "f32_val (f32_mul (f32_of_int n) p)"
  have "\<lfloor>?v\<rfloor> \<le> \<lfloor>(of_int (c * 2 ^ j) :: rat)\<rfloor>"
    by (intro floor_mono product_val_le[OF n p M(1,2)])
  then have "\<lfloor>?v\<rfloor> \<le> c * 2 ^ j" by (simp only: floor_of_int)
  moreover have "0 \<le> \<lfloor>?v\<rfloor>" using product_val_nonneg[OF n p(1)] by simp
  ultimately have b: "\<lfloor>?v\<rfloor> < 2 ^ 31" "0 \<le> \<lfloor>?v\<rfloor>" "\<lfloor>?v\<rfloor> \<le> c * 2 ^ j"
    using M(3) by linarith+
  have "compute_target n p = Some \<lfloor>?v\<rfloor>"
    unfolding compute_target_floor[OF n p(1)] using b(1) by (simp only: if_True)
  with b show ?thesis by blast
qed

lemma compute_target_valid:
  assumes "0 \<le> n" "valid_percentile n p"
  shows "\<exists>t. compute_target n p = Some t \<and> 0 \<le> t"
proof -
  have "n \<le> (2 ^ 24 - 1) * 2 ^ 7" using assms(2) by (simp add: valid_percentile_def)
  from compute_target_le[OF assms(1) _ _ this] assms(2) show ?thesis
    by (auto simp: valid_percentile_def)
qed

lemma compute_target_le_total:
  assumes "0 \<le> n" "0 \<le> f32_val p" "f32_val p \<le> 1" "n \<le> 2 ^ 24"
  shows "\<exists>t. compute_target n p = Some t \<and> 0 \<le> t \<and> t \<le> n"
  using compute_target_le[OF assms(1,2,3), of n 0] assms(4) by simp

lemma compute_target_nonpos:
  assumes n: "0 \<le> n" and p: "f32_val p \<le> 0" and t: "compute_target n p = Some t"
  shows "t \<le> 0"
proof -
  have m: "mantissa p \<le> 0"
  proof (rule ccontr)
    assume "\<not> mantissa p \<le> 0"
    then have "0 < of_int (mantissa p) * (2::rat) powi exponent p" by simp
    with p show False by (simp add: f32_val_powi)
  qed
  define x where "x = mantissa (f32_of_int n) * mantissa p"
  have x: "x \<le> 0" unfolding x_def using f32_of_int_mantissa[OF n] m by (rule mult_nonneg_nonpos)
  define mf where "mf = mantissa (f32_mul (f32_of_int n) p)"
  define ef where "ef = exponent (f32_mul (f32_of_int n) p)"
  have "mf = sgn x * round_quotient \<bar>x\<bar> (excess_bits \<bar>x\<bar>)"
    by (simp add: mf_def x_def f32_mul_def round24_eq)
  moreover have "sgn x \<le> 0" using x by (simp add: sgn_if)
  moreover have "0 \<le> round_quotient \<bar>x\<bar> (excess_bits \<bar>x\<bar>)"
    by (rule round_quotient_nonneg) simp
  ultimately have mf: "mf \<le> 0" by (simp only: mult_nonpos_nonneg)
  have "(if 0 \<le> ef then mf * 2 ^ nat ef else sgn mf * (\<bar>mf\<bar> div 2 ^ nat (- ef))) \<le> 0"
  proof (cases "0 \<le> ef")
    case True
    have "mf * 2 ^ nat ef \<le> 0" using mf by (intro mult_nonpos_nonneg) simp_all
    with True show ?thesis by simp
  next
    case False
    have "sgn mf \<le> 0" using mf by (simp add: sgn_if)
    moreover have "0 \<le> \<bar>mf\<bar> div 2 ^ nat (- ef)" by (simp add: pos_imp_zdiv_nonneg_iff)
    ultimately have "sgn mf * (\<bar>mf\<bar> div 2 ^ nat (- ef)) \<le> 0" by (rule mult_nonpos_nonneg)
    with False show ?thesis by simp
  qed
  with t show ?thesis
    unfolding compute_target_def int_of_f32_def Let_def mf_def ef_def by (simp split: if_splits)
qed

section \<open>The whole function\<close>

text \<open>The successful path, stage by stage.\<close>

lemma pipeline:
  assumes v: "valid_inputs b rows cols num_angles kl my mx"
      and t: "compute_target (rows * cols) p = Some target"
  obtains h_response v_response normalized histogram where
    "accumulation_stage b rows cols num_angles kl my mx = Some (h_response, v_response)"
    "(h_response, v_response) = fold (\<lambda>a. fold (pixel_update b kl a) (interior_pixels rows cols my mx))
         [0 .. num_angles - 1] (replicate (nat (rows * cols)) 0, replicate (nat (rows * cols)) 0)"
    "length h_response = nat (rows * cols)" "length v_response = nat (rows * cols)"
    "combine_normalize (h_response, v_response) = Some (normalized, histogram)"
    "length normalized = nat (rows * cols)" "length histogram = 256"
    "directional_gradient_accumulate True True b rows cols num_angles kl my mx p =
       Some (b\<lparr>result_data := binarize normalized (select_threshold histogram target)\<rparr>)"
proof -
  let ?z = "(replicate (nat (rows * cols)) (0::i32), replicate (nat (rows * cols)) (0::i32))"
  let ?res = "fold (\<lambda>a. fold (pixel_update b kl a) (interior_pixels rows cols my mx))
         [0 .. num_angles - 1] ?z"
  have tot: "0 \<le> rows * cols" "rows * cols < 2 ^ 31" "int (length (result_data b)) = rows * cols"
    using v by (simp_all add: valid_inputs_def)
  have st: "accumulation_stage b rows cols num_angles kl my mx = Some ?res"
    unfolding accumulation_stage_def using accumulation_stage_Some[OF v, of "[0 .. num_angles - 1]"]
    by simp
  have len: "length (fst ?res) = nat (rows * cols)" "length (snd ?res) = nat (rows * cols)"
    by (simp_all add: fold_angles_length)
  obtain normalized histogram where
    cn: "combine_normalize ?res = Some (normalized, histogram)"
    using combine_normalize_Some[of ?res] by blast
  note props = combine_normalize_props[OF cn]
  have ln: "length normalized = nat (rows * cols)" using props(1) len by simp
  have dr: "drop (nat (rows * cols)) (result_data b) = []" using tot by simp
  have "directional_gradient_accumulate True True b rows cols num_angles kl my mx p =
       Some (b\<lparr>result_data := binarize normalized (select_threshold histogram target)\<rparr>)"
    unfolding directional_gradient_accumulate_def Let_def using tot
    by (simp add: st cn t dr)
  then show thesis
    using that[of "fst ?res" "snd ?res" normalized histogram] st len cn ln props(2) by simp
qed

lemma binarize_length: "length (binarize n t) = length n"
  by (simp add: binarize_def)

lemma binarize_nth:
  "i < length n \<Longrightarrow> binarize n t ! i = (if t < uint (n ! i) then 255 else 0)"
  by (simp add: binarize_def)

text \<open>
  C6. For valid inputs and a valid percentile, with both allocations successful, the call
  returns, and every byte of the output is 255 where the normalised value of the pixel is
  strictly greater than the selected threshold and 0 otherwise, so a pixel at exactly the
  threshold becomes 0; every output byte is 0 or 255.
\<close>

theorem output_is_binary:
  assumes v: "valid_inputs b rows cols num_angles kernel_length margin_y margin_x"
      and p: "valid_percentile (rows * cols) threshold_percentile"
  shows "\<exists>normalized histogram target b'.
      accumulation_stage b rows cols num_angles kernel_length margin_y margin_x \<bind> combine_normalize
        = Some (normalized, histogram)
    \<and> compute_target (rows * cols) threshold_percentile = Some target
    \<and> directional_gradient_accumulate True True b rows cols num_angles kernel_length
          margin_y margin_x threshold_percentile = Some b'
    \<and> length (result_data b') = nat (rows * cols)
    \<and> length normalized = nat (rows * cols)
    \<and> (\<forall>i<nat (rows * cols).
          result_data b' ! i
            = (if select_threshold histogram target < uint (normalized ! i) then 255 else 0))
    \<and> (\<forall>i<nat (rows * cols). result_data b' ! i = 0 \<or> result_data b' ! i = 255)"
proof -
  have "0 \<le> rows * cols" using v by (simp add: valid_inputs_def)
  from compute_target_valid[OF this p] obtain target where
    t: "compute_target (rows * cols) threshold_percentile = Some target" by blast
  show ?thesis
  proof (rule pipeline[OF v t])
    fix h_response v_response normalized histogram
    assume st: "accumulation_stage b rows cols num_angles kernel_length margin_y margin_x
           = Some (h_response, v_response)"
      and cn: "combine_normalize (h_response, v_response) = Some (normalized, histogram)"
      and ln: "length normalized = nat (rows * cols)"
      and run: "directional_gradient_accumulate True True b rows cols num_angles kernel_length
          margin_y margin_x threshold_percentile =
       Some (b\<lparr>result_data := binarize normalized (select_threshold histogram target)\<rparr>)"
    let ?b' = "b\<lparr>result_data := binarize normalized (select_threshold histogram target)\<rparr>"
    have a: "accumulation_stage b rows cols num_angles kernel_length margin_y margin_x \<bind> combine_normalize
        = Some (normalized, histogram)" by (simp add: st cn)
    have l: "length (result_data ?b') = nat (rows * cols)" by (simp add: binarize_length ln)
    have f: "\<forall>i<nat (rows * cols). result_data ?b' ! i
            = (if select_threshold histogram target < uint (normalized ! i) then 255 else 0)"
      by (simp add: binarize_nth ln)
    then have g: "\<forall>i<nat (rows * cols). result_data ?b' ! i = 0 \<or> result_data ?b' ! i = 255"
      by simp
    show ?thesis
      apply (rule exI[of _ normalized])
      apply (rule exI[of _ histogram])
      apply (rule exI[of _ target])
      apply (rule exI[of _ ?b'])
      using a t run l ln f g by (intro conjI)
  qed
qed

theorem output_is_binary_witness:
  "valid_inputs scenario_B 3 3 1 1 1 1 \<and> valid_percentile (3 * 3) percentile_09
   \<and> directional_gradient_accumulate True True scenario_B 3 3 1 1 1 1 percentile_09
       = Some (scenario_B\<lparr>result_data := [0, 0, 0, 0, 255, 0, 0, 0, 0]\<rparr>)"
proof -
  have v: "valid_inputs scenario_B 3 3 1 1 1 1" by code_simp
  have p: "valid_percentile (3 * 3) percentile_09" by code_simp
  have r: "directional_gradient_accumulate True True scenario_B 3 3 1 1 1 1 percentile_09
       = Some (scenario_B\<lparr>result_data := [0, 0, 0, 0, 255, 0, 0, 0, 0]\<rparr>)" by code_simp
  from output_is_binary[OF v p] obtain b' where
    "directional_gradient_accumulate True True scenario_B 3 3 1 1 1 1 percentile_09 = Some b'"
    by blast
  with v p r show ?thesis by simp
qed

text \<open>
  C5. When one of the two allocations fails, and the result buffer has the \<open>rows * cols\<close>
  bytes of the interface, the call returns with every one of these bytes zero, whatever the
  buffer held before and whatever the other arguments are; the other four buffers are as
  they were, and the value returned carries no status.
\<close>

theorem allocation_failure_zeroes_output:
  assumes "\<not> (h_alloc \<and> v_alloc)"
      and "0 \<le> rows * cols" "rows * cols < 2 ^ 31"
      and "int (length (result_data b)) = rows * cols"
  shows "directional_gradient_accumulate h_alloc v_alloc b rows cols num_angles kernel_length
           margin_y margin_x threshold_percentile
         = Some (b\<lparr>result_data := replicate (nat (rows * cols)) 0\<rparr>)
       \<and> (\<forall>b'. directional_gradient_accumulate h_alloc v_alloc b rows cols num_angles kernel_length
                 margin_y margin_x threshold_percentile = Some b' \<longrightarrow>
             gy_data b' = gy_data b \<and> gx_data b' = gx_data b \<and>
             h_offsets b' = h_offsets b \<and> v_offsets b' = v_offsets b \<and>
             length (result_data b') = length (result_data b) \<and>
             (\<forall>i<length (result_data b'). result_data b' ! i = 0))"
proof -
  have dr: "drop (nat (rows * cols)) (result_data b) = []" using assms by simp
  have "directional_gradient_accumulate h_alloc v_alloc b rows cols num_angles kernel_length
           margin_y margin_x threshold_percentile
         = Some (b\<lparr>result_data := replicate (nat (rows * cols)) 0\<rparr>)"
    unfolding directional_gradient_accumulate_def Let_def using assms by (simp add: dr)
  moreover have "length (replicate (nat (rows * cols)) (0::u8)) = length (result_data b)"
    using assms by simp
  ultimately show ?thesis by auto
qed

theorem allocation_failure_zeroes_output_witness:
  "directional_gradient_accumulate False True scenario_B 3 3 1 1 1 1 percentile_09
     = Some (scenario_B\<lparr>result_data := [0, 0, 0, 0, 0, 0, 0, 0, 0]\<rparr>)
   \<and> directional_gradient_accumulate True False scenario_B 3 3 1 1 1 1 percentile_09
     = Some (scenario_B\<lparr>result_data := [0, 0, 0, 0, 0, 0, 0, 0, 0]\<rparr>)"
proof -
  have l: "int (length (result_data scenario_B)) = 3 * 3" by (simp add: scenario_B_def)
  have r: "replicate (nat (3 * 3)) (0::u8) = [0, 0, 0, 0, 0, 0, 0, 0, 0]" by code_simp
  have "directional_gradient_accumulate False True scenario_B 3 3 1 1 1 1 percentile_09
     = Some (scenario_B\<lparr>result_data := replicate (nat (3 * 3)) 0\<rparr>)"
    by (rule allocation_failure_zeroes_output[THEN conjunct1]) (simp_all add: l)
  moreover have "directional_gradient_accumulate True False scenario_B 3 3 1 1 1 1 percentile_09
     = Some (scenario_B\<lparr>result_data := replicate (nat (3 * 3)) 0\<rparr>)"
    by (rule allocation_failure_zeroes_output[THEN conjunct1]) (simp_all add: l)
  ultimately show ?thesis by (simp only: r simp_thms)
qed

lemma pixel_index_unique:
  fixes c :: int
  assumes "0 \<le> x" "x < c" "0 \<le> x'" "x' < c" "y * c + x = y' * c + x'"
  shows "y = y' \<and> x = x'"
proof -
  have c: "0 < c" using assms by linarith
  have "(y * c + x) div c = y" using assms(1,2) c by (simp add: div_pos_pos_trivial)
  moreover have "(y' * c + x') div c = y'" using assms(3,4) c by (simp add: div_pos_pos_trivial)
  ultimately have "y = y'" using assms(5) by (simp only:)
  with assms(5) show ?thesis by simp
qed

lemma margin_not_interior_pixel:
  assumes v: "valid_inputs b rows cols num_angles kl my mx"
      and yx: "0 \<le> x" "x < cols" "\<not> interior rows cols my mx y x"
  shows "y * cols + x \<notin> set (interior_pixels rows cols my mx)"
proof
  assume "y * cols + x \<in> set (interior_pixels rows cols my mx)"
  then obtain y' x' where i: "interior rows cols my mx y' x'" and e: "y * cols + x = y' * cols + x'"
    by (auto simp: interior_pixels_iff)
  have "0 \<le> mx" using v by (simp add: valid_inputs_def)
  with i have "0 \<le> x'" "x' < cols" by (simp_all add: interior_def)
  from pixel_index_unique[OF yx(1,2) this e] i yx(3) show False by simp
qed

lemma normalized_value_zero: "normalized_value 0 gm = 0"
  by (simp add: normalized_value_def clamp_def)

text \<open>
  C7. For valid inputs and a valid percentile, and any offset tables, every pixel of the
  image outside the interior region is 0 in the output of the call.
\<close>

theorem margin_pixels_are_zero:
  assumes v: "valid_inputs b rows cols num_angles kernel_length margin_y margin_x"
      and p: "valid_percentile (rows * cols) threshold_percentile"
      and y: "0 \<le> y" "y < rows" and x: "0 \<le> x" "x < cols"
      and m: "\<not> interior rows cols margin_y margin_x y x"
  shows "\<exists>b'. directional_gradient_accumulate True True b rows cols num_angles kernel_length
                margin_y margin_x threshold_percentile = Some b'
            \<and> result_data b' ! nat (y * cols + x) = 0"
proof -
  have "0 \<le> rows * cols" using v by (simp add: valid_inputs_def)
  from compute_target_valid[OF this p] obtain target where
    t: "compute_target (rows * cols) threshold_percentile = Some target" by blast
  have rng: "0 \<le> y * cols + x" "y * cols + x < rows * cols"
  proof -
    show "0 \<le> y * cols + x" using y x by simp
    have "(y + 1) * cols \<le> rows * cols" using y x by (intro mult_right_mono) auto
    then show "y * cols + x < rows * cols" using x by (simp add: algebra_simps)
  qed
  define j where "j = nat (y * cols + x)"
  have j: "int j = y * cols + x" "int j < rows * cols" "j < nat (rows * cols)"
    using rng by (simp_all add: j_def)
  have out: "int j \<notin> set (interior_pixels rows cols margin_y margin_x)"
    unfolding j(1) by (rule margin_not_interior_pixel[OF v x m])
  show ?thesis
  proof (rule pipeline[OF v t])
    fix h_response v_response normalized histogram
    assume res: "(h_response, v_response) = fold (\<lambda>a. fold (pixel_update b kernel_length a)
           (interior_pixels rows cols margin_y margin_x))
         [0 .. num_angles - 1] (replicate (nat (rows * cols)) 0, replicate (nat (rows * cols)) 0)"
      and len: "length h_response = nat (rows * cols)" "length v_response = nat (rows * cols)"
      and cn: "combine_normalize (h_response, v_response) = Some (normalized, histogram)"
      and ln: "length normalized = nat (rows * cols)" and lh: "length histogram = 256"
      and run: "directional_gradient_accumulate True True b rows cols num_angles kernel_length
          margin_y margin_x threshold_percentile =
       Some (b\<lparr>result_data := binarize normalized (select_threshold histogram target)\<rparr>)"
    have h0: "h_response ! j = 0"
      using accumulated_nth(1)[OF v j(2), of "[0 .. num_angles - 1]"] out
      by (simp flip: res)
    have v0: "v_response ! j = 0"
      using accumulated_nth(2)[OF v j(2), of "[0 .. num_angles - 1]"] out
      by (simp flip: res)
    have "fst (combine_pass h_response v_response 1) ! j = 0"
      using combine_pass_nth[of j h_response v_response 1] len j(3) h0 v0 by simp
    then have n0: "normalized ! j = 0"
      using combine_normalize_props(4)[OF cn, of j] ln j(3)
      by (simp add: normalized_value_zero)
    have "0 \<le> select_threshold histogram target"
      using select_threshold_range[OF lh] by blast
    then have "binarize normalized (select_threshold histogram target) ! j = 0"
      using ln j(3) n0 by (simp add: binarize_nth)
    then show ?thesis using run by (simp add: j_def)
  qed
qed

theorem margin_pixels_are_zero_witness:
  "valid_inputs scenario_B 3 3 1 1 1 1 \<and> valid_percentile (3 * 3) percentile_09
   \<and> \<not> interior 3 3 1 1 0 2
   \<and> (\<exists>b'. directional_gradient_accumulate True True scenario_B 3 3 1 1 1 1 percentile_09 = Some b'
            \<and> result_data b' ! nat (0 * 3 + 2) = 0)"
proof -
  have v: "valid_inputs scenario_B 3 3 1 1 1 1" by code_simp
  have p: "valid_percentile (3 * 3) percentile_09" by code_simp
  have m: "\<not> interior 3 3 1 1 0 2" by (simp add: interior_def)
  from margin_pixels_are_zero[OF v p _ _ _ _ m] have
    "\<exists>b'. directional_gradient_accumulate True True scenario_B 3 3 1 1 1 1 percentile_09 = Some b'
            \<and> result_data b' ! nat (0 * 3 + 2) = 0"
    by simp
  with v p m show ?thesis by (intro conjI)
qed

lemma scaled_in_range:
  assumes "0 \<le> sint c" "sint c \<le> sint gm" "1 \<le> sint gm"
  shows "\<exists>n. scaled c gm = Some n \<and> 0 \<le> n \<and> n \<le> 255 \<and> clamp n = n"
proof -
  define C where "C = sint c"
  define G where "G = sint gm"
  have C: "0 \<le> C" "C \<le> G" and G: "1 \<le> G" using assms by (simp_all add: C_def G_def)
  define q where "q = (C * 255) div G"
  have q0: "0 \<le> q" unfolding q_def using C G by (simp add: pos_imp_zdiv_nonneg_iff)
  have "(C * 255) div G \<le> (G * 255) div G"
    using C G by (intro zdiv_mono1) simp_all
  also have "(G * 255) div G = 255" using G by simp
  finally have q1: "q \<le> 255" by (simp add: q_def)
  have "sgn (C * 255) * sgn G * (\<bar>C * 255\<bar> div \<bar>G\<bar>) = q"
    using C G by (cases "C = 0") (simp_all add: q_def sgn_if)
  moreover have "signed_take_bit 31 q = q"
    using q0 q1 by (intro signed_take_bit_int_eq_self) simp_all
  ultimately have "scaled c gm = Some q"
    using G by (simp add: scaled_def cdiv_def C_def G_def)
  moreover have "clamp q = q" using q0 q1 by (simp add: clamp_def)
  ultimately show ?thesis using q0 q1 by blast
qed

lemma sint_fold_smax_nonneg: "0 \<le> sint (fold (\<lambda>a acc. smax acc (w a)) angles 0)"
  unfolding sint_fold_smax by (rule Max_ge) simp_all

text \<open>
  C10. For valid inputs (whether or not the tap sums fit the accumulator), the quotient
  \<open>combined * 255 / global_max\<close> of every pixel lies in \<open>[0, 255]\<close>, since
  \<open>0 \<le> combined \<le> global_max\<close> after the combining pass: neither clamp changes it, so
  without the two clamps every output byte would be the same.
\<close>

theorem clamps_are_identity:
  assumes v: "valid_inputs b rows cols num_angles kernel_length margin_y margin_x"
  shows "\<exists>h_response v_response.
      accumulation_stage b rows cols num_angles kernel_length margin_y margin_x
        = Some (h_response, v_response)
    \<and> (\<forall>i<nat (rows * cols).
          0 \<le> sint (fst (combine_pass h_response v_response 1) ! i)
        \<and> sint (fst (combine_pass h_response v_response 1) ! i)
             \<le> sint (snd (combine_pass h_response v_response 1))
        \<and> (\<exists>n. scaled (fst (combine_pass h_response v_response 1) ! i)
                        (snd (combine_pass h_response v_response 1)) = Some n
               \<and> 0 \<le> n \<and> n \<le> 255 \<and> clamp n = n))"
proof -
  let ?z = "(replicate (nat (rows * cols)) (0::i32), replicate (nat (rows * cols)) (0::i32))"
  let ?res = "fold (\<lambda>a. fold (pixel_update b kernel_length a)
                 (interior_pixels rows cols margin_y margin_x)) [0 .. num_angles - 1] ?z"
  let ?h = "fst ?res" and ?v = "snd ?res"
  let ?cg = "combine_pass ?h ?v 1"
  have st: "accumulation_stage b rows cols num_angles kernel_length margin_y margin_x = Some (?h, ?v)"
    unfolding accumulation_stage_def
    using accumulation_stage_Some[OF v, of "[0 .. num_angles - 1]"] by simp
  have len: "length ?h = nat (rows * cols)" "length ?v = nat (rows * cols)"
    by (simp_all add: fold_angles_length)
  have px: "0 \<le> sint (fst ?cg ! i) \<and> sint (fst ?cg ! i) \<le> sint (snd ?cg)
        \<and> (\<exists>n. scaled (fst ?cg ! i) (snd ?cg) = Some n \<and> 0 \<le> n \<and> n \<le> 255 \<and> clamp n = n)"
    if i: "i < nat (rows * cols)" for i
  proof -
    have ii: "int i < rows * cols" using i by simp
    have h: "0 \<le> sint (?h ! i)"
      unfolding accumulated_nth(1)[OF v ii] by (simp add: sint_fold_smax_nonneg)
    have vv: "0 \<le> sint (?v ! i)"
      unfolding accumulated_nth(2)[OF v ii] by (simp add: sint_fold_smax_nonneg)
    have c: "fst ?cg ! i = (if sint (?v ! i) < sint (?h ! i) then ?h ! i else ?v ! i)"
      using len i by (intro combine_pass_nth) simp_all
    have c0: "0 \<le> sint (fst ?cg ! i)" unfolding c using h vv by simp
    have "fst ?cg ! i \<in> set (fst ?cg)"
      using len i by (intro nth_mem) (simp add: combine_pass_length)
    then have c1: "sint (fst ?cg ! i) \<le> sint (snd ?cg)" by (rule combine_pass_bound)
    have g: "1 \<le> sint (snd ?cg)" using combine_pass_max_ge[of 1 ?h ?v] by simp
    from scaled_in_range[OF c0 c1 g] c0 c1 show ?thesis by blast
  qed
  show ?thesis
    apply (rule exI[of _ ?h])
    apply (rule exI[of _ ?v])
    using st px by blast
qed

theorem clamps_are_identity_witness:
  "valid_inputs scenario_B 3 3 1 1 1 1
   \<and> accumulation_stage scenario_B 3 3 1 1 1 1
       = Some ([0, 0, 0, 0, 100, 0, 0, 0, 0], [0, 0, 0, 0, 50, 0, 0, 0, 0])
   \<and> scaled (fst (combine_pass [0, 0, 0, 0, 100, 0, 0, 0, 0] [0, 0, 0, 0, 50, 0, 0, 0, 0] 1) ! 4)
             (snd (combine_pass [0, 0, 0, 0, 100, 0, 0, 0, 0] [0, 0, 0, 0, 50, 0, 0, 0, 0] 1))
       = Some 255
   \<and> clamp 255 = 255"
proof -
  have v: "valid_inputs scenario_B 3 3 1 1 1 1" by code_simp
  have r: "accumulation_stage scenario_B 3 3 1 1 1 1
       = Some ([0, 0, 0, 0, 100, 0, 0, 0, 0], [0, 0, 0, 0, 50, 0, 0, 0, 0])" by code_simp
  have s: "scaled (fst (combine_pass [0, 0, 0, 0, 100, 0, 0, 0, 0] [0, 0, 0, 0, 50, 0, 0, 0, 0] 1) ! 4)
             (snd (combine_pass [0, 0, 0, 0, 100, 0, 0, 0, 0] [0, 0, 0, 0, 50, 0, 0, 0, 0] 1))
       = Some 255" by code_simp
  from clamps_are_identity[OF v] obtain h vv where
    st: "accumulation_stage scenario_B 3 3 1 1 1 1 = Some (h, vv)"
    and px: "\<And>i. i < nat (3 * 3) \<Longrightarrow>
          \<exists>n. scaled (fst (combine_pass h vv 1) ! i) (snd (combine_pass h vv 1)) = Some n
               \<and> 0 \<le> n \<and> n \<le> 255 \<and> clamp n = n"
    by blast
  from st r have hv: "h = [0, 0, 0, 0, 100, 0, 0, 0, 0]" "vv = [0, 0, 0, 0, 50, 0, 0, 0, 0]"
    by simp_all
  have "(4::nat) < nat (3 * 3)" by simp
  from px[OF this] s have "clamp 255 = 255" unfolding hv by simp
  with v r s show ?thesis by (intro conjI)
qed

text \<open>
  C1. Scenario B, stage by stage, with the percentile the binary32 value nearest to 0.9
  (within half a unit in the last place): the accumulated responses are 100 and 50 at the
  centre and 0 elsewhere, the combined image has global maximum 100, the normalised image
  is 255 at the centre and 0 elsewhere, the histogram has 8 pixels in bin 0 and 1 in bin
  255, the target is 8, the walk stops at bin 0, the threshold is 0, and the output is 255
  at the centre and 0 elsewhere.
\<close>

theorem scenario_B_trace:
  "2 ^ 23 \<le> mantissa percentile_09 \<and> mantissa percentile_09 < 2 ^ 24
   \<and> \<bar>f32_val percentile_09 - 9 / 10\<bar> \<le> 1 / 2 ^ 25
   \<and> accumulation_stage scenario_B 3 3 1 1 1 1
     = Some ([0, 0, 0, 0, 100, 0, 0, 0, 0], [0, 0, 0, 0, 50, 0, 0, 0, 0])
   \<and> combine_pass [0, 0, 0, 0, 100, 0, 0, 0, 0] [0, 0, 0, 0, 50, 0, 0, 0, 0] 1
     = ([0, 0, 0, 0, 100, 0, 0, 0, 0], 100)
   \<and> combine_normalize ([0, 0, 0, 0, 100, 0, 0, 0, 0], [0, 0, 0, 0, 50, 0, 0, 0, 0])
     = Some ([0, 0, 0, 0, 255, 0, 0, 0, 0], 8 # replicate 254 0 @ [1])
   \<and> compute_target (3 * 3) percentile_09 = Some 8
   \<and> threshold_walk (8 # replicate 254 0 @ [1]) 0 0 8 = Some 0
   \<and> select_threshold (8 # replicate 254 0 @ [1]) 8 = 0
   \<and> directional_gradient_accumulate True True scenario_B 3 3 1 1 1 1 percentile_09
     = Some (scenario_B\<lparr>result_data := [0, 0, 0, 0, 255, 0, 0, 0, 0]\<rparr>)"
  by code_simp

lemma select_threshold_mono:
  assumes len: "length histogram = 256" and le: "t1 \<le> t2"
  shows "select_threshold histogram t1 \<le> select_threshold histogram t2"
proof -
  from select_threshold_cases[OF len, of t2] show ?thesis
  proof
    assume "\<exists>i. threshold_walk histogram 0 0 t2 = Some i \<and> select_threshold histogram t2 = i
            \<and> 0 \<le> i \<and> i \<le> 255 \<and> t2 \<le> running_sum histogram i
            \<and> (\<forall>j. 0 \<le> j \<and> j < i \<longrightarrow> running_sum histogram j < t2)"
    then obtain i2 where i2: "select_threshold histogram t2 = i2" "0 \<le> i2" "i2 \<le> 255"
        "t2 \<le> running_sum histogram i2"
      by blast
    from select_threshold_cases[OF len, of t1] show ?thesis
    proof
      assume "\<exists>i. threshold_walk histogram 0 0 t1 = Some i \<and> select_threshold histogram t1 = i
            \<and> 0 \<le> i \<and> i \<le> 255 \<and> t1 \<le> running_sum histogram i
            \<and> (\<forall>j. 0 \<le> j \<and> j < i \<longrightarrow> running_sum histogram j < t1)"
      then obtain i1 where i1: "select_threshold histogram t1 = i1"
          "\<forall>j. 0 \<le> j \<and> j < i1 \<longrightarrow> running_sum histogram j < t1"
        by blast
      have "\<not> i2 < i1"
      proof
        assume "i2 < i1"
        with i1(2) i2(2) have "running_sum histogram i2 < t1" by blast
        with i2(4) le show False by linarith
      qed
      with i1(1) i2(1) show ?thesis by simp
    next
      assume "threshold_walk histogram 0 0 t1 = None \<and> select_threshold histogram t1 = 255
            \<and> (\<forall>j. 0 \<le> j \<and> j \<le> 255 \<longrightarrow> running_sum histogram j < t1)"
      then have "running_sum histogram i2 < t1" using i2(2,3) by blast
      with i2(4) le show ?thesis by linarith
    qed
  next
    assume "threshold_walk histogram 0 0 t2 = None \<and> select_threshold histogram t2 = 255
            \<and> (\<forall>j. 0 \<le> j \<and> j \<le> 255 \<longrightarrow> running_sum histogram j < t2)"
    then show ?thesis using select_threshold_range[OF len, of t1] by simp
  qed
qed

lemma count_binarize:
  "count_list (binarize normalized t) 255 = length (filter (\<lambda>p. t < uint p) normalized)"
  by (induction normalized) (simp_all add: binarize_def)

lemma filter_length_mono:
  "(\<And>x. P x \<Longrightarrow> Q x) \<Longrightarrow> length (filter P xs) \<le> length (filter Q xs)"
  by (induction xs) auto

lemma count_binarize_antimono:
  "t1 \<le> t2 \<Longrightarrow> count_list (binarize normalized t2) 255 \<le> count_list (binarize normalized t1) 255"
  unfolding count_binarize by (rule filter_length_mono) simp

text \<open>
  C9. For valid inputs and two valid percentiles \<open>p1 \<le> p2\<close>, all other arguments the same:
  the histogram is the same, the target of \<open>p1\<close> is at most the target of \<open>p2\<close>, the selected
  threshold of \<open>p1\<close> is at most that of \<open>p2\<close>, and the output for \<open>p2\<close> has at most as many
  bytes equal to 255 as the output for \<open>p1\<close>.
\<close>

theorem threshold_monotone_in_percentile:
  assumes v: "valid_inputs b rows cols num_angles kernel_length margin_y margin_x"
      and p1: "valid_percentile (rows * cols) p1" and p2: "valid_percentile (rows * cols) p2"
      and le: "f32_val p1 \<le> f32_val p2"
  shows "\<exists>normalized histogram t1 t2 b1 b2.
      accumulation_stage b rows cols num_angles kernel_length margin_y margin_x \<bind> combine_normalize
        = Some (normalized, histogram)
    \<and> compute_target (rows * cols) p1 = Some t1
    \<and> compute_target (rows * cols) p2 = Some t2
    \<and> t1 \<le> t2
    \<and> select_threshold histogram t1 \<le> select_threshold histogram t2
    \<and> directional_gradient_accumulate True True b rows cols num_angles kernel_length
          margin_y margin_x p1 = Some b1
    \<and> directional_gradient_accumulate True True b rows cols num_angles kernel_length
          margin_y margin_x p2 = Some b2
    \<and> count_list (result_data b2) 255 \<le> count_list (result_data b1) 255"
proof -
  have n: "0 \<le> rows * cols" using v by (simp add: valid_inputs_def)
  from compute_target_valid[OF n p2] obtain t2 where
    t2: "compute_target (rows * cols) p2 = Some t2" by blast
  have "0 \<le> f32_val p1" using p1 by (simp add: valid_percentile_def)
  from compute_target_mono[OF n this le t2] obtain t1 where
    t1: "compute_target (rows * cols) p1 = Some t1" and tle: "t1 \<le> t2" by blast
  show ?thesis
  proof (rule pipeline[OF v t1], rule pipeline[OF v t2])
    fix h v' n1 hist1 h2 v2 n2 hist2
    assume st1: "accumulation_stage b rows cols num_angles kernel_length margin_y margin_x = Some (h, v')"
      and cn1: "combine_normalize (h, v') = Some (n1, hist1)"
      and lh: "length hist1 = 256"
      and run1: "directional_gradient_accumulate True True b rows cols num_angles kernel_length
          margin_y margin_x p1 = Some (b\<lparr>result_data := binarize n1 (select_threshold hist1 t1)\<rparr>)"
      and st2: "accumulation_stage b rows cols num_angles kernel_length margin_y margin_x = Some (h2, v2)"
      and cn2: "combine_normalize (h2, v2) = Some (n2, hist2)"
      and run2: "directional_gradient_accumulate True True b rows cols num_angles kernel_length
          margin_y margin_x p2 = Some (b\<lparr>result_data := binarize n2 (select_threshold hist2 t2)\<rparr>)"
    from st1 st2 have "h2 = h" "v2 = v'" by simp_all
    with cn1 cn2 have same: "n2 = n1" "hist2 = hist1" by simp_all
    have a: "accumulation_stage b rows cols num_angles kernel_length margin_y margin_x \<bind> combine_normalize
        = Some (n1, hist1)" by (simp add: st1 cn1)
    have s: "select_threshold hist1 t1 \<le> select_threshold hist1 t2"
      by (rule select_threshold_mono[OF lh tle])
    have c: "count_list (result_data (b\<lparr>result_data := binarize n1 (select_threshold hist1 t2)\<rparr>)) 255
           \<le> count_list (result_data (b\<lparr>result_data := binarize n1 (select_threshold hist1 t1)\<rparr>)) 255"
      using count_binarize_antimono[OF s, of n1] by simp
    show ?thesis
      apply (rule exI[of _ n1])
      apply (rule exI[of _ hist1])
      apply (rule exI[of _ t1])
      apply (rule exI[of _ t2])
      apply (rule exI[of _ "b\<lparr>result_data := binarize n1 (select_threshold hist1 t1)\<rparr>"])
      apply (rule exI[of _ "b\<lparr>result_data := binarize n1 (select_threshold hist1 t2)\<rparr>"])
      using a t1 t2 tle s run1 run2[unfolded same] c by (intro conjI)
  qed
qed

theorem threshold_monotone_in_percentile_witness:
  "valid_inputs scenario_B 3 3 1 1 1 1
   \<and> valid_percentile (3 * 3) percentile_09 \<and> valid_percentile (3 * 3) (Float32 1 0)
   \<and> f32_val percentile_09 \<le> f32_val (Float32 1 0)
   \<and> compute_target (3 * 3) percentile_09 = Some 8
   \<and> compute_target (3 * 3) (Float32 1 0) = Some 9
   \<and> select_threshold (8 # replicate 254 0 @ [1]) 8 = 0
   \<and> select_threshold (8 # replicate 254 0 @ [1]) 9 = 255
   \<and> directional_gradient_accumulate True True scenario_B 3 3 1 1 1 1 percentile_09
       = Some (scenario_B\<lparr>result_data := [0, 0, 0, 0, 255, 0, 0, 0, 0]\<rparr>)
   \<and> directional_gradient_accumulate True True scenario_B 3 3 1 1 1 1 (Float32 1 0)
       = Some (scenario_B\<lparr>result_data := [0, 0, 0, 0, 0, 0, 0, 0, 0]\<rparr>)
   \<and> count_list [0, 0, 0, 0, 0, 0, 0, 0, 0 :: u8] 255 \<le> count_list [0, 0, 0, 0, 255, 0, 0, 0, 0 :: u8] 255"
proof -
  have v: "valid_inputs scenario_B 3 3 1 1 1 1" by code_simp
  have p1: "valid_percentile (3 * 3) percentile_09" by code_simp
  have p2: "valid_percentile (3 * 3) (Float32 1 0)" by code_simp
  have le: "f32_val percentile_09 \<le> f32_val (Float32 1 0)" by code_simp
  have t: "compute_target (3 * 3) percentile_09 = Some 8"
          "compute_target (3 * 3) (Float32 1 0) = Some 9" by code_simp+
  have s: "select_threshold (8 # replicate 254 0 @ [1]) 8 = 0"
          "select_threshold (8 # replicate 254 0 @ [1]) 9 = 255" by code_simp+
  have r1: "directional_gradient_accumulate True True scenario_B 3 3 1 1 1 1 percentile_09
       = Some (scenario_B\<lparr>result_data := [0, 0, 0, 0, 255, 0, 0, 0, 0]\<rparr>)" by code_simp
  have r2: "directional_gradient_accumulate True True scenario_B 3 3 1 1 1 1 (Float32 1 0)
       = Some (scenario_B\<lparr>result_data := [0, 0, 0, 0, 0, 0, 0, 0, 0]\<rparr>)" by code_simp
  from threshold_monotone_in_percentile[OF v p1 p2 le] obtain b1 b2 where
    "directional_gradient_accumulate True True scenario_B 3 3 1 1 1 1 percentile_09 = Some b1"
    "directional_gradient_accumulate True True scenario_B 3 3 1 1 1 1 (Float32 1 0) = Some b2"
    "count_list (result_data b2) 255 \<le> count_list (result_data b1) 255"
    by blast
  with r1 r2 have "count_list [0, 0, 0, 0, 0, 0, 0, 0, 0 :: u8] 255
                     \<le> count_list [0, 0, 0, 0, 255, 0, 0, 0, 0 :: u8] 255"
    by (simp del: count_list.simps)
  with v p1 p2 le t s r1 r2 show ?thesis by (intro conjI)
qed

lemma count_le_mono: "s \<le> t \<Longrightarrow> count_le normalized s \<le> count_le normalized t"
  unfolding count_le_def
  using filter_length_mono[of "\<lambda>p. uint p \<le> s" "\<lambda>p. uint p \<le> t" normalized] by simp

lemma count_le_all: "count_le normalized 255 = int (length normalized)"
proof -
  have "uint p \<le> 255" for p :: u8 using uint_bounded[of p] by simp
  then show ?thesis by (simp add: count_le_def)
qed

text \<open>The walk runs to its end exactly when the target exceeds the number of pixels.\<close>

lemma walk_None_iff_total:
  assumes cn: "combine_normalize resp = Some (normalized, histogram)"
  shows "threshold_walk histogram 0 0 target = None \<longleftrightarrow> int (length normalized) < target"
proof -
  note p = combine_normalize_props[OF cn]
  have rs: "running_sum histogram t = count_le normalized t" if "0 \<le> t" "t \<le> 255" for t
    using p(3)[of t] that by simp
  show ?thesis
  proof
    assume "threshold_walk histogram 0 0 target = None"
    with select_threshold_cases[OF p(2), of target]
    have "running_sum histogram 255 < target" by auto
    then show "int (length normalized) < target" using rs[of 255] by (simp add: count_le_all)
  next
    assume lt: "int (length normalized) < target"
    show "threshold_walk histogram 0 0 target = None"
    proof (rule ccontr)
      assume "threshold_walk histogram 0 0 target \<noteq> None"
      with select_threshold_cases[OF p(2), of target]
      obtain i where i: "0 \<le> i" "i \<le> 255" "target \<le> running_sum histogram i" by auto
      have "running_sum histogram i \<le> count_le normalized 255"
        using rs[OF i(1,2)] count_le_mono[OF i(2), of normalized] by simp
      with i(3) lt show False by (simp add: count_le_all)
    qed
  qed
qed

text \<open>
  C4, as amended. The walk over the bins runs to its end, leaving the default 255, exactly
  when the target exceeds the number of pixels. With a percentile of at most 1 this cannot
  happen while the number of pixels is at most \<open>2 ^ 24\<close>, where its conversion to single
  precision is exact.
\<close>

theorem fallback_only_when_target_exceeds_total:
  assumes cn: "combine_normalize resp = Some (normalized, histogram)"
  shows "(threshold_walk histogram 0 0 target = None \<longleftrightarrow> int (length normalized) < target)
       \<and> (compute_target (int (length normalized)) threshold_percentile = Some target
            \<and> f32_val threshold_percentile \<le> 1 \<and> int (length normalized) \<le> 2 ^ 24
          \<longrightarrow> threshold_walk histogram 0 0 target \<noteq> None)"
proof -
  have "target \<le> int (length normalized)"
    if t: "compute_target (int (length normalized)) threshold_percentile = Some target"
      and p: "f32_val threshold_percentile \<le> 1" and n: "int (length normalized) \<le> 2 ^ 24"
  proof (cases "0 \<le> f32_val threshold_percentile")
    case True
    from compute_target_le_total[OF _ True p n] t show ?thesis by auto
  next
    case False
    then have "f32_val threshold_percentile \<le> 0" by simp
    from compute_target_nonpos[OF _ this t] show ?thesis by simp
  qed
  then show ?thesis
    unfolding walk_None_iff_total[OF cn] by auto
qed

theorem fallback_only_when_target_exceeds_total_witness:
  "combine_normalize ([0, 0, 0, 0, 100, 0, 0, 0, 0], [0, 0, 0, 0, 50, 0, 0, 0, 0])
     = Some ([0, 0, 0, 0, 255, 0, 0, 0, 0], 8 # replicate 254 0 @ [1])
   \<and> compute_target (int (length [0, 0, 0, 0, 255, 0, 0, 0, 0 :: u8])) percentile_09 = Some 8
   \<and> f32_val percentile_09 \<le> 1
   \<and> int (length [0, 0, 0, 0, 255, 0, 0, 0, 0 :: u8]) \<le> 2 ^ 24
   \<and> threshold_walk (8 # replicate 254 0 @ [1]) 0 0 8 \<noteq> None
   \<and> threshold_walk (8 # replicate 254 0 @ [1]) 0 0 10 = None"
proof -
  have c: "combine_normalize ([0, 0, 0, 0, 100, 0, 0, 0, 0], [0, 0, 0, 0, 50, 0, 0, 0, 0])
     = Some ([0, 0, 0, 0, 255, 0, 0, 0, 0], 8 # replicate 254 0 @ [1])" by code_simp
  have t: "compute_target (int (length [0, 0, 0, 0, 255, 0, 0, 0, 0 :: u8])) percentile_09 = Some 8"
    by code_simp
  have p: "f32_val percentile_09 \<le> 1" by code_simp
  have n: "int (length [0, 0, 0, 0, 255, 0, 0, 0, 0 :: u8]) \<le> 2 ^ 24" by simp
  have "threshold_walk (8 # replicate 254 0 @ [1]) 0 0 8 \<noteq> None"
    using fallback_only_when_target_exceeds_total[OF c, of 8 percentile_09, THEN conjunct2] t p n
    by blast
  moreover have "threshold_walk (8 # replicate 254 0 @ [1]) 0 0 10 = None"
    using fallback_only_when_target_exceeds_total[OF c, of 10 percentile_09, THEN conjunct1]
    by simp
  ultimately show ?thesis using c t p n by (intro conjI)
qed

lemma upto_zero_single: "[0 .. (1::int) - 1] = [0]"
  by (simp add: upto.simps)

lemma flat_image_valid:
  assumes "0 \<le> rows" "0 \<le> cols" "rows * cols < 2 ^ 31" "0 \<le> my" "0 \<le> mx"
  shows "valid_inputs (flat_image rows cols) rows cols 1 1 my mx"
proof -
  have n: "0 \<le> rows * cols" using assms by simp
  have "taps_in_bounds (replicate (nat (rows * cols)) 0) [0] 1 0 (y * cols + x)"
    if "y \<in> set [my .. rows - my - 1]" "x \<in> set [mx .. cols - mx - 1]" for y x
  proof -
    have "interior rows cols my mx y x" using that by (simp add: interior_def)
    from interior_in_range[OF this assms(4,5)] n show ?thesis
      by (simp add: taps_in_bounds_def upto_zero_single)
  qed
  then show ?thesis
    using assms n by (simp add: valid_inputs_def flat_image_def upto_zero_single)
qed

lemma flat_image_accumulation:
  assumes "0 \<le> rows" "0 \<le> cols" "rows * cols < 2 ^ 31" "0 \<le> my" "0 \<le> mx"
  shows "accumulation_stage (flat_image rows cols) rows cols 1 1 my mx
           = Some (replicate (nat (rows * cols)) 0, replicate (nat (rows * cols)) 0)"
proof -
  let ?b = "flat_image rows cols"
  let ?n = "nat (rows * cols)"
  let ?res = "fold (\<lambda>a. fold (pixel_update ?b 1 a) (interior_pixels rows cols my mx)) [0]
                (replicate ?n 0, replicate ?n 0)"
  note v = flat_image_valid[OF assms]
  have st: "accumulation_stage ?b rows cols 1 1 my mx = Some ?res"
    unfolding accumulation_stage_def
    using accumulation_stage_Some[OF v, of "[0]"] by (simp add: upto_zero_single)
  have ts: "tap_sum (replicate ?n 0) [0] 1 0 (int j) = 0" if "j < ?n" for j
    using that by (simp add: tap_sum_def upto_zero_single)
  have "fst ?res = replicate ?n 0"
  proof (rule nth_equalityI)
    show "length (fst ?res) = length (replicate ?n (0::i32))" by (simp add: fold_pixel_update_length)
  next
    fix j assume "j < length (fst ?res)"
    then have j: "j < ?n" by (simp add: fold_pixel_update_length)
    then have jj: "int j < rows * cols" by simp
    show "fst ?res ! j = replicate ?n 0 ! j"
      unfolding accumulated_nth(1)[OF v jj] using j ts[OF j]
      by (simp add: flat_image_def smax_def)
  qed
  moreover have "snd ?res = replicate ?n 0"
  proof (rule nth_equalityI)
    show "length (snd ?res) = length (replicate ?n (0::i32))" by (simp add: fold_pixel_update_length)
  next
    fix j assume "j < length (snd ?res)"
    then have j: "j < ?n" by (simp add: fold_pixel_update_length)
    then have jj: "int j < rows * cols" by simp
    show "snd ?res ! j = replicate ?n 0 ! j"
      unfolding accumulated_nth(2)[OF v jj] using j ts[OF j]
      by (simp add: flat_image_def smax_def)
  qed
  ultimately have "?res = (replicate ?n 0, replicate ?n 0)" by (simp add: prod_eq_iff)
  with st show ?thesis by simp
qed

lemma combine_pass_zero:
  "combine_pass (replicate n 0) (replicate n 0) 1 = (replicate n 0, 1)"
  by (induction n) (simp_all add: Let_def)

lemma fold_bump_zero:
  "h \<noteq> [] \<Longrightarrow> fold (\<lambda>c. bump 0) (replicate n c0) h = h[0 := h ! 0 + int n]"
proof (induction n arbitrary: h)
  case 0
  then show ?case by simp
next
  case (Suc n)
  have "bump 0 h \<noteq> []" using Suc.prems by (simp add: bump_def)
  from Suc.IH[OF this] Suc.prems show ?case
    by (cases h) (simp_all add: bump_def)
qed

lemma combine_normalize_zero:
  "combine_normalize (replicate n 0, replicate n 0) = Some (replicate n 0, int n # replicate 255 0)"
proof -
  have r: "replicate 256 (0::int) = 0 # replicate 255 0" by code_simp
  have "normalize_pass (replicate n 0) 1 (replicate 256 0)
          = Some (map (\<lambda>c. word_of_int (normalized_value c 1)) (replicate n 0),
                  fold (\<lambda>c. bump (normalized_value c 1)) (replicate n 0) (replicate 256 0))"
    by (rule normalize_pass_Some) simp_all
  also have "map (\<lambda>c. word_of_int (normalized_value c 1)) (replicate n (0::i32)) = replicate n (0::u8)"
    by (simp add: normalized_value_zero)
  also have "fold (\<lambda>c. bump (normalized_value c 1)) (replicate n (0::i32)) (replicate 256 0)
               = fold (\<lambda>c. bump 0) (replicate n (0::i32)) (replicate 256 0)"
    by (rule fold_cong) (simp_all add: normalized_value_zero)
  also have "\<dots> = int n # replicate 255 0"
    unfolding r by (subst fold_bump_zero) simp_all
  finally show ?thesis
    by (simp add: combine_normalize_def combine_pass_zero)
qed

text \<open>
  A flat image of 4099 rows and 4097 columns has 16793603 pixels, a count that single
  precision rounds up to 16793604. At percentile 1 the target is 16793604, the histogram
  holds all 16793603 pixels in bin 0, no running sum reaches the target, and the threshold
  is the default 255.
\<close>

theorem fallback_at_percentile_one_counterexample:
  "valid_inputs (flat_image 4099 4097) 4099 4097 1 1 1 1
   \<and> valid_percentile (4099 * 4097) (Float32 1 0)
   \<and> f32_val (Float32 1 0) \<le> 1
   \<and> accumulation_stage (flat_image 4099 4097) 4099 4097 1 1 1 1
       = Some (replicate 16793603 0, replicate 16793603 0)
   \<and> combine_normalize (replicate 16793603 0, replicate 16793603 0)
       = Some (replicate 16793603 0, 16793603 # replicate 255 0)
   \<and> compute_target (4099 * 4097) (Float32 1 0) = Some 16793604
   \<and> threshold_walk (16793603 # replicate 255 0) 0 0 16793604 = None
   \<and> select_threshold (16793603 # replicate 255 0) 16793604 = 255"
proof -
  have n: "nat (4099 * 4097) = 16793603" by simp
  have v: "valid_inputs (flat_image 4099 4097) 4099 4097 1 1 1 1"
    by (rule flat_image_valid) simp_all
  have p: "valid_percentile (4099 * 4097) (Float32 1 0)" by code_simp
  have o: "f32_val (Float32 1 0) \<le> 1" by code_simp
  have a: "accumulation_stage (flat_image 4099 4097) 4099 4097 1 1 1 1
       = Some (replicate 16793603 0, replicate 16793603 0)"
    using flat_image_accumulation[of 4099 4097 1 1] unfolding n by simp
  have c: "combine_normalize (replicate 16793603 0, replicate 16793603 0)
       = Some (replicate 16793603 0, 16793603 # replicate 255 0)"
    using combine_normalize_zero[of 16793603] by simp
  have t: "compute_target (4099 * 4097) (Float32 1 0) = Some 16793604" by code_simp
  have w: "threshold_walk (16793603 # replicate 255 0) 0 0 16793604 = None" by code_simp
  have s: "select_threshold (16793603 # replicate 255 0) 16793604 = 255" by code_simp
  from v p o a c t w s show ?thesis by (intro conjI)
qed

section \<open>Flat images\<close>

text \<open>
  Scenario A: on a flat 3 by 3 image with margin 1 the output is all zero for every valid
  percentile; the same holds for a flat image of any size.
\<close>

lemma flat_image_output:
  assumes g: "0 \<le> rows" "0 \<le> cols" "rows * cols < 2 ^ 31" "0 \<le> my" "0 \<le> mx"
      and p: "valid_percentile (rows * cols) p"
  shows "directional_gradient_accumulate True True (flat_image rows cols) rows cols 1 1 my mx p
           = Some (flat_image rows cols)"
proof -
  note v = flat_image_valid[OF g]
  have "0 \<le> rows * cols" using g by simp
  from compute_target_valid[OF this p] obtain target where
    t: "compute_target (rows * cols) p = Some target" by blast
  show ?thesis
  proof (rule pipeline[OF v t])
    fix h_response v_response normalized histogram
    assume st: "accumulation_stage (flat_image rows cols) rows cols 1 1 my mx
                  = Some (h_response, v_response)"
      and cn: "combine_normalize (h_response, v_response) = Some (normalized, histogram)"
      and lh: "length histogram = 256"
      and run: "directional_gradient_accumulate True True (flat_image rows cols) rows cols 1 1 my mx p =
         Some ((flat_image rows cols)\<lparr>result_data :=
                 binarize normalized (select_threshold histogram target)\<rparr>)"
    have "Some (h_response, v_response)
            = Some (replicate (nat (rows * cols)) 0, replicate (nat (rows * cols)) 0)"
      using st flat_image_accumulation[OF g] by (simp only:)
    then have
      "h_response = replicate (nat (rows * cols)) 0" "v_response = replicate (nat (rows * cols)) 0"
      by simp_all
    with cn combine_normalize_zero[of "nat (rows * cols)"]
    have n: "normalized = replicate (nat (rows * cols)) 0" by simp
    have "0 \<le> select_threshold histogram target"
      using select_threshold_range[OF lh] by blast
    then have "binarize normalized (select_threshold histogram target)
                 = replicate (nat (rows * cols)) 0"
      unfolding n by (simp add: binarize_def)
    with run show ?thesis by (simp add: flat_image_def)
  qed
qed

lemma scenario_A:
  "valid_percentile (3 * 3) p \<Longrightarrow>
     directional_gradient_accumulate True True (flat_image 3 3) 3 3 1 1 1 1 p = Some (flat_image 3 3)"
  by (rule flat_image_output) simp_all

end
